theory Spec2Isabelle
  imports Complex_Main
begin

section \<open>Characters and Python string operations\<close>

text \<open>
  The parser works on Python \<open>str\<close> values. A string is modelled as a list of
  characters, one \<open>char\<close> per code point, so the model covers the texts whose code
  points are below 256 (Latin-1). The character classes are those of Python on
  these code points: white space (\<open>str.isspace\<close>, which \<open>split\<close>, \<open>strip\<close> and
  \<open>\<^verbatim>\<open>\s\<close>\<close> use) includes the next-line character \<open>0x85\<close> and the no-break
  space \<open>0xA0\<close>; the decimal digits (\<open>\<^verbatim>\<open>\d\<close>\<close>) are \<open>0\<close> to \<open>9\<close>.
\<close>

definition is_space :: "char \<Rightarrow> bool" where
  "is_space c = (c \<in> set [CHR 0x09, CHR 0x0A, CHR 0x0B, CHR 0x0C, CHR 0x0D,
                            CHR 0x1C, CHR 0x1D, CHR 0x1E, CHR 0x1F, CHR 0x20,
                            CHR 0x85, CHR 0xA0])"

definition is_digit :: "char \<Rightarrow> bool" where
  "is_digit c = (c \<in> set ''0123456789'')"

definition is_AZ :: "char \<Rightarrow> bool" where
  "is_AZ c = (c \<in> set ''ABCDEFGHIJKLMNOPQRSTUVWXYZ'')"

text \<open>
  The small letters that have a capital letter below 256, and those capital
  letters: \<open>a\<close> to \<open>z\<close> and the accented letters \<open>0xE0\<close> to \<open>0xFE\<close> (without the
  division sign \<open>0xF7\<close>).
\<close>

definition SMALL_LETTERS :: string where
  "SMALL_LETTERS = ''abcdefghijklmnopqrstuvwxyz'' @
    [CHR 0xE0, CHR 0xE1, CHR 0xE2, CHR 0xE3, CHR 0xE4, CHR 0xE5, CHR 0xE6, CHR 0xE7,
      CHR 0xE8, CHR 0xE9, CHR 0xEA, CHR 0xEB, CHR 0xEC, CHR 0xED, CHR 0xEE, CHR 0xEF,
      CHR 0xF0, CHR 0xF1, CHR 0xF2, CHR 0xF3, CHR 0xF4, CHR 0xF5, CHR 0xF6, CHR 0xF8,
      CHR 0xF9, CHR 0xFA, CHR 0xFB, CHR 0xFC, CHR 0xFD, CHR 0xFE]"

definition CAPITAL_LETTERS :: string where
  "CAPITAL_LETTERS = ''ABCDEFGHIJKLMNOPQRSTUVWXYZ'' @
    [CHR 0xC0, CHR 0xC1, CHR 0xC2, CHR 0xC3, CHR 0xC4, CHR 0xC5, CHR 0xC6, CHR 0xC7,
      CHR 0xC8, CHR 0xC9, CHR 0xCA, CHR 0xCB, CHR 0xCC, CHR 0xCD, CHR 0xCE, CHR 0xCF,
      CHR 0xD0, CHR 0xD1, CHR 0xD2, CHR 0xD3, CHR 0xD4, CHR 0xD5, CHR 0xD6, CHR 0xD8,
      CHR 0xD9, CHR 0xDA, CHR 0xDB, CHR 0xDC, CHR 0xDD, CHR 0xDE]"

definition upper_char :: "char \<Rightarrow> char" where
  "upper_char c =
     (case map_of (zip SMALL_LETTERS CAPITAL_LETTERS) c of Some u \<Rightarrow> u | None \<Rightarrow> c)"

definition lower_char :: "char \<Rightarrow> char" where
  "lower_char c =
     (case map_of (zip CAPITAL_LETTERS SMALL_LETTERS) c of Some l \<Rightarrow> l | None \<Rightarrow> c)"

text \<open>
  \<open>s.upper()\<close> and \<open>s.lower()\<close>. The sharp s \<open>0xDF\<close> becomes \<open>SS\<close> in upper case.
  The capital forms of the micro sign \<open>0xB5\<close> and of \<open>0xFF\<close> are code points above
  255; here the two characters stay as they are. Like their capital forms they are
  neither white space, nor digits, nor ASCII, and the parser only ever compares
  the upper-cased text with ASCII texts and these classes.
\<close>

definition upper :: "string \<Rightarrow> string" where
  "upper s = concat (map (\<lambda>c. if c = CHR 0xDF then ''SS'' else [upper_char c]) s)"

definition lower :: "string \<Rightarrow> string" where
  "lower s = map lower_char s"

text \<open>
  \<open>s.capitalize()\<close>: the first character in title case (the sharp s becomes
  \<open>Ss\<close>), the rest in lower case.
\<close>

definition capitalize :: "string \<Rightarrow> string" where
  "capitalize s =
     (case s of
        [] \<Rightarrow> []
      | c # cs \<Rightarrow> (if c = CHR 0xDF then ''Ss'' else [upper_char c]) @ lower cs)"

text \<open>\<open>s.startswith(p)\<close>, \<open>s.endswith(p)\<close> and \<open>p in s\<close>.\<close>

definition startswith :: "string \<Rightarrow> string \<Rightarrow> bool" where
  "startswith s p = (take (length p) s = p)"

definition endswith :: "string \<Rightarrow> string \<Rightarrow> bool" where
  "endswith s p = (length p \<le> length s \<and> drop (length s - length p) s = p)"

fun contains :: "string \<Rightarrow> string \<Rightarrow> bool" where
  "contains [] p = (p = [])"
| "contains (c # cs) p = (startswith (c # cs) p \<or> contains cs p)"

text \<open>\<open>s.lstrip()\<close>, \<open>s.rstrip()\<close> and \<open>s.strip()\<close>.\<close>

definition lstrip :: "string \<Rightarrow> string" where
  "lstrip s = dropWhile is_space s"

definition rstrip :: "string \<Rightarrow> string" where
  "rstrip s = rev (dropWhile is_space (rev s))"

definition strip :: "string \<Rightarrow> string" where
  "strip s = rstrip (lstrip s)"

text \<open>
  \<open>s.split()\<close> without arguments: the maximal runs of non-whitespace characters.
  The first argument is the word being read.
\<close>

fun split_acc :: "string \<Rightarrow> string \<Rightarrow> string list" where
  "split_acc cur [] = (if cur = [] then [] else [cur])"
| "split_acc cur (c # cs) =
     (if is_space c then (if cur = [] then split_acc [] cs else cur # split_acc [] cs)
      else split_acc (cur @ [c]) cs)"

definition split :: "string \<Rightarrow> string list" where
  "split s = split_acc [] s"

text \<open>\<open>sep.join(xs)\<close>.\<close>

fun join :: "string \<Rightarrow> string list \<Rightarrow> string" where
  "join sep [] = []"
| "join sep [x] = x"
| "join sep (x # y # ys) = x @ sep @ join sep (y # ys)"

text \<open>The idiom \<open>" ".join(s.split())\<close> that the parser uses throughout.\<close>

definition norm_ws :: "string \<Rightarrow> string" where
  "norm_ws s = join '' '' (split s)"

text \<open>
  \<open>s.replace(old, new)\<close> for a non-empty \<open>old\<close>: the occurrences are replaced from
  left to right without overlap. The counter is the number of characters of the
  occurrence just replaced that are still to be skipped.
\<close>

fun replace_from :: "string \<Rightarrow> string \<Rightarrow> nat \<Rightarrow> string \<Rightarrow> string" where
  "replace_from old new k [] = []"
| "replace_from old new (Suc k) (c # cs) = replace_from old new k cs"
| "replace_from old new 0 (c # cs) =
     (if startswith (c # cs) old then new @ replace_from old new (length old - 1) cs
      else c # replace_from old new 0 cs)"

definition replace :: "string \<Rightarrow> string \<Rightarrow> string \<Rightarrow> string" where
  "replace s old new = replace_from old new 0 s"

text \<open>
  \<open>s.splitlines()\<close>: the line boundaries are line feed, carriage return (alone or
  followed by a line feed), vertical tab, form feed, the three separators
  \<open>0x1C\<close>, \<open>0x1D\<close>, \<open>0x1E\<close> and the next-line character \<open>0x85\<close>; a final
  boundary does not open a further line.
\<close>

definition is_linebreak :: "char \<Rightarrow> bool" where
  "is_linebreak c =
     (c \<in> set [CHR 0x0A, CHR 0x0B, CHR 0x0C, CHR 0x0D, CHR 0x1C, CHR 0x1D, CHR 0x1E,
               CHR 0x85])"

fun splitlines_acc :: "string \<Rightarrow> string \<Rightarrow> string list" where
  "splitlines_acc cur [] = (if cur = [] then [] else [cur])"
| "splitlines_acc cur (c # cs) =
     (if c = CHR 0x0D then
        (case cs of
           [] \<Rightarrow> [cur]
         | d # ds \<Rightarrow> if d = CHR 0x0A then cur # splitlines_acc [] ds
                    else cur # splitlines_acc [] cs)
      else if is_linebreak c then cur # splitlines_acc [] cs
      else splitlines_acc (cur @ [c]) cs)"

definition splitlines :: "string \<Rightarrow> string list" where
  "splitlines s = splitlines_acc [] s"

section \<open>Regular expressions\<close>

text \<open>
  The patterns of the parser use literals, single-character classes, bounded and
  unbounded repetition of a single-character class (greedy or lazy), sequence,
  alternation, named groups, the anchors \<open>^\<close> and \<open>$\<close> and one look-ahead on a
  character class. \<open>Rep p lo hi greedy\<close> is \<open>p{lo,hi}\<close>, with \<open>hi = None\<close> for no
  upper bound.
\<close>

datatype rx =
    Lit string
  | Cls "char \<Rightarrow> bool"
  | Rep "char \<Rightarrow> bool" nat "nat option" bool
  | Seq rx rx
  | Alt rx rx
  | Grp string rx
  | Bol
  | Eol
  | Ahead "char \<Rightarrow> bool"

text \<open>
  A matcher state is the position reached and the text still to read; the groups
  captured so far are kept beside it.
\<close>

type_synonym mstate = "nat \<times> string"
type_synonym groups = "(string \<times> string) list"

text \<open>
  \<open>rep_ends p s k\<close> lists the states after \<open>k\<close>, \<open>k + 1\<close>, ... repetitions of the
  class \<open>p\<close>, as long as the text allows.
\<close>

fun rep_ends :: "(char \<Rightarrow> bool) \<Rightarrow> string \<Rightarrow> nat \<Rightarrow> (nat \<times> string) list" where
  "rep_ends p [] k = [(k, [])]"
| "rep_ends p (c # cs) k = (k, c # cs) # (if p c then rep_ends p cs (Suc k) else [])"

definition count_ok :: "nat \<Rightarrow> nat option \<Rightarrow> nat \<Rightarrow> bool" where
  "count_ok lo hi k = (lo \<le> k \<and> (case hi of None \<Rightarrow> True | Some h \<Rightarrow> k \<le> h))"

text \<open>
  \<open>ms r st g\<close> lists every way of matching \<open>r\<close> from the state \<open>st\<close>, in the order in
  which a backtracking matcher tries them: the left alternative first, the longest
  repetition first when greedy and the shortest first when lazy, and for a sequence
  every continuation of the first way of matching its head before the second way.
  Python's \<open>re\<close> returns the first entry.
\<close>

primrec ms :: "rx \<Rightarrow> mstate \<Rightarrow> groups \<Rightarrow> (mstate \<times> groups) list" where
  "ms (Lit l) st g =
     (if startswith (snd st) l then [((fst st + length l, drop (length l) (snd st)), g)]
      else [])"
| "ms (Cls p) st g =
     (case snd st of [] \<Rightarrow> [] | c # cs \<Rightarrow> if p c then [((Suc (fst st), cs), g)] else [])"
| "ms (Rep p lo hi greedy) st g =
     (let ends = filter (\<lambda>e. count_ok lo hi (fst e)) (rep_ends p (snd st) 0)
      in map (\<lambda>e. ((fst st + fst e, snd e), g)) (if greedy then rev ends else ends))"
| "ms (Seq a b) st g = concat (map (\<lambda>r. ms b (fst r) (snd r)) (ms a st g))"
| "ms (Alt a b) st g = ms a st g @ ms b st g"
| "ms (Grp n r) st g =
     map (\<lambda>res. (fst res, snd res @ [(n, take (fst (fst res) - fst st) (snd st))]))
         (ms r st g)"
| "ms Bol st g = (if fst st = 0 then [(st, g)] else [])"
| "ms Eol st g = (if snd st = [] \<or> snd st = [CHR 0x0A] then [(st, g)] else [])"
| "ms (Ahead p) st g =
     (case snd st of [] \<Rightarrow> [] | c # cs \<Rightarrow> if p c then [(st, g)] else [])"

text \<open>
  A match object: where the match starts and ends, and its groups.
  \<open>re_match\<close> is \<open>pattern.match(s)\<close>; \<open>re_search\<close> is \<open>pattern.search(s)\<close>, which
  tries the start positions from left to right.
\<close>

record rmatch =
  m_start :: nat
  m_end :: nat
  m_groups :: groups

definition match_at :: "rx \<Rightarrow> nat \<Rightarrow> string \<Rightarrow> rmatch option" where
  "match_at r i s =
     (case ms r (i, s) [] of
        [] \<Rightarrow> None
      | res # _ \<Rightarrow> Some \<lparr>m_start = i, m_end = fst (fst res), m_groups = snd res\<rparr>)"

definition re_match :: "rx \<Rightarrow> string \<Rightarrow> rmatch option" where
  "re_match r s = match_at r 0 s"

fun search_from :: "rx \<Rightarrow> nat \<Rightarrow> string \<Rightarrow> rmatch option" where
  "search_from r i [] = match_at r i []"
| "search_from r i (c # cs) =
     (case match_at r i (c # cs) of
        Some m \<Rightarrow> Some m
      | None \<Rightarrow> search_from r (Suc i) cs)"

definition re_search :: "rx \<Rightarrow> string \<Rightarrow> rmatch option" where
  "re_search r s = search_from r 0 s"

text \<open>\<open>m.group(name)\<close> for a group that took part in the match.\<close>

definition group :: "rmatch \<Rightarrow> string \<Rightarrow> string" where
  "group m n = (case map_of (m_groups m) n of Some t \<Rightarrow> t | None \<Rightarrow> [])"

text \<open>
  \<open>re.sub(pattern, repl, s)\<close> for a pattern that never matches the empty string:
  matches are replaced from left to right without overlap. The counter is the
  number of characters of the last match still to be skipped.
\<close>

fun sub_from :: "rx \<Rightarrow> string \<Rightarrow> nat \<Rightarrow> nat \<Rightarrow> string \<Rightarrow> string" where
  "sub_from r repl k i [] = []"
| "sub_from r repl (Suc k) i (c # cs) = sub_from r repl k (Suc i) cs"
| "sub_from r repl 0 i (c # cs) =
     (case match_at r i (c # cs) of
        None \<Rightarrow> c # sub_from r repl 0 (Suc i) cs
      | Some m \<Rightarrow> repl @ sub_from r repl (m_end m - i - 1) (Suc i) cs)"

definition re_sub :: "rx \<Rightarrow> string \<Rightarrow> string \<Rightarrow> string" where
  "re_sub r repl s = sub_from r repl 0 0 s"

text \<open>Sequences and alternations of several patterns.\<close>

fun seqs :: "rx list \<Rightarrow> rx" where
  "seqs [] = Lit []"
| "seqs [r] = r"
| "seqs (r # rs) = Seq r (seqs rs)"

fun alts :: "string list \<Rightarrow> rx" where
  "alts [] = Lit []"
| "alts [l] = Lit l"
| "alts (l # ls) = Alt (Lit l) (alts ls)"

section \<open>Constants and patterns of the CIBC statement parser\<close>

definition KNOWN_CATEGORIES :: "string list" where
  "KNOWN_CATEGORIES =
     [''Personal and Household Expenses'',
      ''Professional and Financial Services'',
      ''Retail and Grocery'',
      ''Transportation'',
      ''Hotel, Entertainment and Recreation'',
      ''Restaurants'',
      ''Health and Education'',
      ''Foreign Currency Transactions'',
      ''Other Transactions'']"

text \<open>
  The province codes, in the order in which the three province patterns and the
  loop of the fourth strategy list them.
\<close>

definition PROVINCE_CODES :: "string list" where
  "PROVINCE_CODES =
     [''ON'', ''QC'', ''BC'', ''AB'', ''MB'', ''SK'', ''NB'', ''NS'', ''NL'', ''PE'',
      ''YT'', ''NT'', ''NU'']"

definition CITY_PATTERNS :: "string list" where
  "CITY_PATTERNS =
     [''NIAGARA FALLS'', ''RICHMOND HILL'', ''STONEY CREEK'',
      ''MISSISSAUGA'', ''ETOBICOKE'', ''WOODBRIDGE'', ''DESERONTO'',
      ''BRAMPTON'', ''OTTAWA'', ''NEPEAN'', ''TORONTO'', ''MARKHAM'', ''KANATA'', ''ORLEANS'',
      ''SAINT GABRIEL'', ''MONTREAL'', ''WAKEFIELD'',
      ''CALGARY'',
      ''HALIFAX'',
      ''FREDERICTON'']"

text \<open>
  \<open>sorted(xs, key=len, reverse=True)\<close>: longest first, and strings of one length
  stay in the order they had (Python's sort is stable, also when reversed).
\<close>

definition sorted_longest_first :: "string list \<Rightarrow> string list" where
  "sorted_longest_first xs = sort_key (\<lambda>x. - int (length x)) xs"

definition CITY_PATTERNS_SORTED :: "string list" where
  "CITY_PATTERNS_SORTED = sorted_longest_first CITY_PATTERNS"

definition CITY_PATTERNS_NOSPACE :: "string list" where
  "CITY_PATTERNS_NOSPACE = map (\<lambda>c. replace c '' '' []) CITY_PATTERNS_SORTED"

definition PAYMENTS_START :: string where
  "PAYMENTS_START = ''Your payments''"

definition PAYMENTS_TOTAL_PREFIX :: string where
  "PAYMENTS_TOTAL_PREFIX = ''Total payments $''"

definition CHARGES_START :: string where
  "CHARGES_START = ''Your new charges and credits''"

definition TOTAL_FOR_PREFIX :: string where
  "TOTAL_FOR_PREFIX = ''Total for''"

definition CARD_NUMBER_PREFIX :: string where
  "CARD_NUMBER_PREFIX = ''Card number''"

text \<open>\<open>.\<close> matches every character but the line feed.\<close>

definition any_char :: "char \<Rightarrow> bool" where
  "any_char c = (c \<noteq> CHR 0x0A)"

text \<open>\<open>Transactions from .*? (\d{4})\<close>\<close>

definition TRANSACTIONS_FROM_RE :: rx where
  "TRANSACTIONS_FROM_RE =
     seqs [Lit ''Transactions from '', Rep any_char 0 None False, Lit '' '',
           Grp ''1'' (Rep is_digit 4 (Some 4) True)]"

definition MONTH_3_NAMES :: "string list" where
  "MONTH_3_NAMES =
     [''Jan'', ''Feb'', ''Mar'', ''Apr'', ''May'', ''Jun'',
      ''Jul'', ''Aug'', ''Sep'', ''Oct'', ''Nov'', ''Dec'']"

definition MONTH_3 :: rx where
  "MONTH_3 = alts MONTH_3_NAMES"

definition DATE_RE :: rx where
  "DATE_RE = seqs [MONTH_3, Rep is_space 1 None True, Rep is_digit 1 (Some 2) True]"

definition AMOUNT_RE :: rx where
  "AMOUNT_RE =
     seqs [Rep (\<lambda>c. c = CHR ''-'') 0 (Some 1) True,
           Cls is_digit,
           Rep (\<lambda>c. is_digit c \<or> c = CHR '','') 0 None True,
           Rep (\<lambda>c. c = CHR ''.'') 0 (Some 1) True,
           Rep is_digit 0 (Some 2) True]"

definition ROW_RE :: rx where
  "ROW_RE =
     seqs [Bol, Grp ''tdate'' DATE_RE, Rep is_space 1 None True,
           Grp ''pdate'' DATE_RE, Rep is_space 1 None True,
           Grp ''body'' (Rep any_char 1 None False), Rep is_space 1 None True,
           Grp ''amount'' AMOUNT_RE, Eol]"

section \<open>Data models\<close>

text \<open>
  A \<open>datetime\<close> value; every date the parser builds is at midnight, so the date
  fields are the whole value.
\<close>

record datetime =
  dt_year :: int
  dt_month :: nat
  dt_day :: nat

text \<open>
  \<open>amount\<close> is a Python \<open>float\<close> in the source. Floating-point numbers are not
  modelled: \<open>PyFloat t\<close> stands for the number that \<open>float(t)\<close> returns.
\<close>

datatype py_float = PyFloat string

record PaymentRow =
  p_trans_date :: datetime
  p_post_date :: datetime
  p_description :: string
  p_amount :: py_float
  p_source :: string

record TransactionRow =
  t_trans_date :: datetime
  t_post_date :: datetime
  t_description :: string
  t_category :: string
  t_amount :: py_float
  t_location :: string
  t_city :: string
  t_province :: string
  t_source :: string

section \<open>Helpers\<close>

subsection \<open>Decimal numbers\<close>

definition digit_val :: "char \<Rightarrow> nat" where
  "digit_val c = length (takeWhile (\<lambda>d. d \<noteq> c) ''0123456789'')"

definition digits_val :: "string \<Rightarrow> nat" where
  "digits_val s = foldl (\<lambda>acc c. 10 * acc + digit_val c) 0 s"

definition digit_char :: "nat \<Rightarrow> char" where
  "digit_char n = ''0123456789'' ! (n mod 10)"

text \<open>\<open>str(n)\<close> for an integer: its decimal digits, after a minus sign when negative.\<close>

fun str_nat :: "nat \<Rightarrow> string" where
  "str_nat n = (if n < 10 then [digit_char n] else str_nat (n div 10) @ [digit_char n])"

declare str_nat.simps [simp del]

definition str_int :: "int \<Rightarrow> string" where
  "str_int i = (if i < 0 then CHR ''-'' # str_nat (nat (- i)) else str_nat (nat i))"

text \<open>
  \<open>int(s)\<close> on a word without blanks: an optional sign, then decimal digits, where
  single underscores may stand between digits. \<open>None\<close> is the \<open>ValueError\<close>.
\<close>

fun underscores_ok :: "string \<Rightarrow> bool" where
  "underscores_ok [] = False"
| "underscores_ok [c] = is_digit c"
| "underscores_ok (c # d # ds) =
     (if is_digit c then underscores_ok (d # ds)
      else c = CHR ''_'' \<and> is_digit d \<and> underscores_ok (d # ds))"

definition py_int_unsigned :: "string \<Rightarrow> int option" where
  "py_int_unsigned s =
     (case s of
        [] \<Rightarrow> None
      | c # cs \<Rightarrow> if is_digit c \<and> underscores_ok s
                 then Some (int (digits_val (filter is_digit s))) else None)"

definition py_int :: "string \<Rightarrow> int option" where
  "py_int s =
     (case s of
        [] \<Rightarrow> None
      | c # cs \<Rightarrow> if c = CHR ''-'' then map_option uminus (py_int_unsigned cs)
                 else if c = CHR ''+'' then py_int_unsigned cs
                 else py_int_unsigned s)"

subsection \<open>The statement year\<close>

text \<open>
  \<open>_extract_year\<close>: the first page with a \<open>Transactions from ... YYYY\<close> marker gives
  the year; without one it is the current year, here the argument \<open>now\<close>
  (\<open>datetime.now().year\<close>).
\<close>

fun extract_year :: "int \<Rightarrow> string list \<Rightarrow> int" where
  "extract_year now [] = now"
| "extract_year now (t # ts) =
     (case re_search TRANSACTIONS_FROM_RE t of
        Some m \<Rightarrow> int (digits_val (group m ''1''))
      | None \<Rightarrow> extract_year now ts)"

subsection \<open>Dates\<close>

text \<open>
  The exceptions that the date library can raise: a \<open>ValueError\<close> (its
  \<open>ParserError\<close> is one; the specification calls it \<open>DateParseError\<close>), kept with
  the text that \<open>str(e)\<close> gives, or an exception of another class, kept with its
  name.
\<close>

datatype error = ValueError string | OtherError string

definition isleap :: "int \<Rightarrow> bool" where
  "isleap y = (y mod 4 = 0 \<and> (y mod 100 \<noteq> 0 \<or> y mod 400 = 0))"

definition mdays :: "nat list" where
  "mdays = [0, 31, 28, 31, 30, 31, 30, 31, 31, 30, 31, 30, 31]"

text \<open>\<open>calendar.monthrange(year, month)[1]\<close> for a month from 1 to 12.\<close>

definition monthrange :: "int \<Rightarrow> nat \<Rightarrow> nat" where
  "monthrange y m = mdays ! m + (if m = 2 \<and> isleap y then 1 else 0)"

text \<open>
  \<open>datetime(year, month, day)\<close> for a month from 1 to 12; the result is the date or
  the message of the \<open>ValueError\<close>. The year is checked before the day.
\<close>

definition mk_datetime :: "int \<Rightarrow> nat \<Rightarrow> int \<Rightarrow> string + datetime" where
  "mk_datetime y m d =
     (if y < 1 \<or> 9999 < y then Inl (''year '' @ str_int y @ '' is out of range'')
      else if d < 1 \<or> int (monthrange y m) < d then Inl ''day is out of range for month''
      else Inr \<lparr>dt_year = y, dt_month = m, dt_day = nat d\<rparr>)"

definition MONTH_ABBRS :: "string list" where
  "MONTH_ABBRS =
     [''jan'', ''feb'', ''mar'', ''apr'', ''may'', ''jun'',
      ''jul'', ''aug'', ''sep'', ''oct'', ''nov'', ''dec'']"

definition MONTH_NAMES :: "string list" where
  "MONTH_NAMES =
     [''january'', ''february'', ''march'', ''april'', ''may'', ''june'',
      ''july'', ''august'', ''september'', ''october'', ''november'', ''december'']"

fun index_of :: "string \<Rightarrow> string list \<Rightarrow> nat \<Rightarrow> nat option" where
  "index_of x [] k = None"
| "index_of x (y # ys) k = (if x = y then Some k else index_of x ys (Suc k))"

text \<open>
  \<open>datetime.strptime(s, "%b").month\<close>: \<open>s\<close> must be an abbreviated month name,
  in any letter case.
\<close>

definition strptime_b :: "string \<Rightarrow> nat option" where
  "strptime_b s = index_of (lower s) MONTH_ABBRS 1"

text \<open>
  The month names that the date library knows: the abbreviations, the full names
  and \<open>Sept\<close>, in any letter case.
\<close>

definition info_month :: "string \<Rightarrow> nat option" where
  "info_month s =
     (case index_of (lower s) MONTH_ABBRS 1 of
        Some m \<Rightarrow> Some m
      | None \<Rightarrow> (if lower s = ''sept'' then Some 9 else index_of (lower s) MONTH_NAMES 1))"

text \<open>
  The library reads a year below 100 that stands without a century as a year of
  the hundred years around the current one.
\<close>

definition convertyear :: "int \<Rightarrow> int \<Rightarrow> int" where
  "convertyear now y =
     (if y < 100 then
        (let y' = y + now div 100 * 100
         in if y' \<ge> now + 50 then y' - 100
            else if y' < now - 50 then y' + 100
            else y')
      else y)"

text \<open>
  \<open>dateutil.parser.parse\<close>, called as \<open>dtparse\<close>, belongs to the python-dateutil
  library, not to this repository. In the model it is a parameter: a function from
  the text to the date, or to the exception that the library raises.

  \<open>_normalize_date\<close>. When the library raises a \<open>ValueError\<close> whose text mentions
  a day out of range, the day is clamped to the last day of the month; if that
  cannot be done, or for any other exception, the exception of the library is
  raised again.
\<close>

definition normalize_date ::
  "(string \<Rightarrow> error + datetime) \<Rightarrow> string \<Rightarrow> int \<Rightarrow> error + datetime" where
  "normalize_date dtparse dstr year =
     (case dtparse (dstr @ '' '' @ str_int year) of
        Inr dt \<Rightarrow> Inr dt
      | Inl e \<Rightarrow>
          (case e of
             OtherError _ \<Rightarrow> Inl e
           | ValueError txt \<Rightarrow>
               if contains txt ''day is out of range for month'' then
                 (case split dstr of
                    mon_str # day_str # _ \<Rightarrow>
                      (case strptime_b mon_str of
                         None \<Rightarrow> Inl e
                       | Some month \<Rightarrow>
                           (case py_int day_str of
                              None \<Rightarrow> Inl e
                            | Some day \<Rightarrow>
                                (let last_day = monthrange year month
                                 in case mk_datetime year month (min day (int last_day)) of
                                      Inr dt \<Rightarrow> Inr dt
                                    | Inl _ \<Rightarrow> Inl e)))
                  | _ \<Rightarrow> Inl e)
               else Inl e))"

text \<open>
  A reference for the library (python-dateutil 2.9), used where a statement is
  evaluated on concrete rows. It covers the texts that \<open>_normalize_date\<close> builds
  from a row: a month name, a day of one or two digits and a year of one to four
  digits, separated by white space. On these the library takes the first number as
  the day and the second as the year; only when the year is at most 100 and the
  first number exceeds 31 does it swap them, and a year not above 100 goes through
  \<open>convertyear\<close>. The date is then built with the checks of \<open>datetime\<close>, and a
  \<open>ValueError\<close> of \<open>datetime\<close> is raised again with the parsed text appended.
  \<open>now\<close> is the current year. Every other text is outside the reference, which
  answers \<open>OtherError ''not modelled''\<close> there; this stands for no behaviour of the
  library, and no statement below relies on it.
\<close>

definition dtparse_ref :: "int \<Rightarrow> string \<Rightarrow> error + datetime" where
  "dtparse_ref now timestr =
     (case split timestr of
        [mon, d, y] \<Rightarrow>
          (case info_month mon of
             None \<Rightarrow> Inl (OtherError ''not modelled'')
           | Some m \<Rightarrow>
               if list_all is_digit d \<and> length d \<in> {1, 2} \<and>
                  list_all is_digit y \<and> length y \<in> {1, 2, 3, 4}
               then
                 (let a = int (digits_val d); b = int (digits_val y);
                      day = (if b \<le> 100 \<and> 31 < a then b else a);
                      year = (if b \<le> 100 \<and> 31 < a then a else b);
                      year = (if 100 < b then year else convertyear now year)
                  in case mk_datetime year m day of
                       Inl msg \<Rightarrow> Inl (ValueError (msg @ '': '' @ timestr))
                     | Inr dt \<Rightarrow> Inr dt)
               else Inl (OtherError ''not modelled''))
      | _ \<Rightarrow> Inl (OtherError ''not modelled''))"


subsection \<open>Category\<close>

text \<open>\<open>body_norm[:-len(cat)]\<close> for a non-empty \<open>cat\<close>.\<close>

definition drop_right :: "nat \<Rightarrow> string \<Rightarrow> string" where
  "drop_right n s = take (length s - n) s"

fun find_category :: "string \<Rightarrow> string list \<Rightarrow> string \<times> string" where
  "find_category body_norm [] = ([], body_norm)"
| "find_category body_norm (cat # cats) =
     (if endswith body_norm cat then (cat, rstrip (drop_right (length cat) body_norm))
      else find_category body_norm cats)"

definition find_category_and_desc :: "string \<Rightarrow> string \<times> string" where
  "find_category_and_desc body =
     find_category (norm_ws body) (sorted_longest_first KNOWN_CATEGORIES)"

subsection \<open>Location\<close>

text \<open>\<open>_normalize_city\<close>\<close>

definition normalize_city :: "string \<Rightarrow> string" where
  "normalize_city s = join '' '' (map capitalize (split (norm_ws s)))"

text \<open>\<open>_letters_only\<close>: \<open>re.sub(r"[^A-Z]", "", s.upper())\<close>\<close>

definition letters_only :: "string \<Rightarrow> string" where
  "letters_only s = re_sub (Cls (\<lambda>c. \<not> is_AZ c)) [] (upper s)"

text \<open>
  The three province patterns of \<open>_detect_province_suffix\<close>:
  \<open>\<^verbatim>\<open>\s(ON|...|NU)\s*$\<close>\<close>, \<open>\<^verbatim>\<open>-(ON|...|NU)\s*$\<close>\<close> and \<open>\<^verbatim>\<open>(ON|...|NU)\s*$\<close>\<close>.
\<close>

definition PROV_TAIL :: "rx list" where
  "PROV_TAIL = [Grp ''1'' (alts PROVINCE_CODES), Rep is_space 0 None True, Eol]"

definition PROV_SPACE_RE :: rx where
  "PROV_SPACE_RE = seqs (Cls is_space # PROV_TAIL)"

definition PROV_HYPHEN_RE :: rx where
  "PROV_HYPHEN_RE = seqs (Lit ''-'' # PROV_TAIL)"

definition PROV_DOMAIN_RE :: rx where
  "PROV_DOMAIN_RE = seqs PROV_TAIL"

definition domain_hints :: "string list" where
  "domain_hints =
     [''WWW'', ''HTTP'', ''HTTPS'', ''.COM'', ''.CA'', ''/'', ''G.CO'', ''GOOGLE'',
      ''AMAZON'', ''UBER'']"

text \<open>
  The four strategies of \<open>_detect_province_suffix\<close>, each giving the match, the
  province and the mode, or nothing. The match of the fourth strategy is the
  fabricated one: it starts where the right-trimmed text before the province ends.
\<close>

definition with_mode :: "string \<Rightarrow> rmatch option \<Rightarrow> (rmatch \<times> string \<times> string) option" where
  "with_mode mode r = (case r of None \<Rightarrow> None | Some m \<Rightarrow> Some (m, group m ''1'', mode))"

definition strategy_space :: "string \<Rightarrow> (rmatch \<times> string \<times> string) option" where
  "strategy_space U = with_mode ''space'' (re_search PROV_SPACE_RE U)"

definition strategy_hyphen :: "string \<Rightarrow> (rmatch \<times> string \<times> string) option" where
  "strategy_hyphen U = with_mode ''hyphen'' (re_search PROV_HYPHEN_RE U)"

text \<open>\<open>any(h in U for h in domain_hints)\<close>\<close>

definition has_domain_hint :: "string \<Rightarrow> bool" where
  "has_domain_hint U = list_ex (\<lambda>h. contains U h) domain_hints"

definition strategy_domain :: "string \<Rightarrow> (rmatch \<times> string \<times> string) option" where
  "strategy_domain U =
     (if has_domain_hint U
      then with_mode ''domain'' (re_search PROV_DOMAIN_RE U) else None)"

fun strategy_gluedcity_from :: "string \<Rightarrow> string list \<Rightarrow> (rmatch \<times> string \<times> string) option" where
  "strategy_gluedcity_from U [] = None"
| "strategy_gluedcity_from U (prov # provs) =
     (if endswith U prov then
        (let before_prov = rstrip (drop_right (length prov) U);
             before_letters = letters_only before_prov
         in if list_ex (\<lambda>city_ns. endswith before_letters city_ns) CITY_PATTERNS_NOSPACE
            then Some (\<lparr>m_start = length before_prov, m_end = length U,
                         m_groups = [(''1'', prov)]\<rparr>, prov, ''gluedcity'')
            else strategy_gluedcity_from U provs)
      else strategy_gluedcity_from U provs)"

definition strategy_gluedcity :: "string \<Rightarrow> (rmatch \<times> string \<times> string) option" where
  "strategy_gluedcity U = strategy_gluedcity_from U PROVINCE_CODES"

text \<open>\<open>_detect_province_suffix\<close>: the first strategy that finds a province wins.\<close>

definition detect_province_suffix :: "string \<Rightarrow> (rmatch \<times> string \<times> string) option" where
  "detect_province_suffix U =
     (case strategy_space U of
        Some r \<Rightarrow> Some r
      | None \<Rightarrow>
          (case strategy_hyphen U of
             Some r \<Rightarrow> Some r
           | None \<Rightarrow>
               (case strategy_domain U of
                  Some r \<Rightarrow> Some r
                | None \<Rightarrow> strategy_gluedcity U)))"

text \<open>
  \<open>(HTTPSWWW|HTTPS|HTTP|WWW|G\.?CO/HELPPAY|GCO/HELPPAY|ONLINE)(?=[A-Z])\<close>
\<close>

definition DEGLUE_RE :: rx where
  "DEGLUE_RE =
     Seq (Grp ''1''
            (Alt (Lit ''HTTPSWWW'')
            (Alt (Lit ''HTTPS'')
            (Alt (Lit ''HTTP'')
            (Alt (Lit ''WWW'')
            (Alt (seqs [Lit ''G'', Rep (\<lambda>c. c = CHR ''.'') 0 (Some 1) True,
                        Lit ''CO/HELPPAY''])
            (Alt (Lit ''GCO/HELPPAY'')
                 (Lit ''ONLINE''))))))))
         (Ahead is_AZ)"

definition STOP :: "string list" where
  "STOP =
     [''STORE'', ''SUPERCENTER'', ''AMAZON'', ''AMAZONCA'', ''WWW'', ''HTTPS'', ''HTTP'',
      ''UBER'', ''UBERCOM'', ''GOOGLE'', ''YOUTUBE'', ''G'', ''CO'', ''HELPPAY'', ''AIRBNB'',
      ''WESTJET'', ''INC'', ''LTD'', ''COMP'', ''COM'', ''ONLINE'',
      ''SUPERCENTEROTTAWA'', ''SUPERCENTERNEPEAN'', ''COMPMONTREAL'', ''INCTORONTO'',
      ''CKANATA'', ''AMAZONCAON'', ''UBERON'', ''HTTPSWWW'']"

definition JOINERS :: "string list" where
  "JOINERS = [''CREEK'', ''FALLS'', ''HILL'']"

text \<open>\<open>^[A-Z]+$\<close>\<close>

definition ALPHA_WORD_RE :: rx where
  "ALPHA_WORD_RE = seqs [Bol, Rep is_AZ 1 None True, Eol]"

definition is_alpha_word :: "string \<Rightarrow> bool" where
  "is_alpha_word t = (re_match ALPHA_WORD_RE t \<noteq> None)"

text \<open>
  The text before the province as \<open>_extract_location\<close> prepares it: right-trimmed,
  de-glued, and reduced to capital letters and single blanks (\<open>tail_alpha\<close>).
\<close>

definition tail_alpha_of :: "string \<Rightarrow> rmatch \<Rightarrow> string" where
  "tail_alpha_of U m =
     (let tail_raw = rstrip (take (m_start m) U);
          tail_raw = re_sub DEGLUE_RE '' '' tail_raw;
          tail_raw = replace (replace tail_raw ''UBERCOM'' ''UBER COM'')
                             ''AMAZON.CA'' ''AMAZON CA'';
          tail_alpha = re_sub (Cls (\<lambda>c. \<not> (is_AZ c \<or> is_space c))) '' '' tail_raw
      in norm_ws tail_alpha)"

text \<open>The nested function \<open>pick_city_from_tokens\<close>, with \<open>toks\<close> as argument.\<close>

definition pick_city_from_tokens :: "string list \<Rightarrow> string" where
  "pick_city_from_tokens toks =
     (if length toks \<ge> 2 \<and> last toks \<in> set JOINERS \<and> is_alpha_word (last (butlast toks))
      then last (butlast toks) @ '' '' @ last toks
      else if toks \<noteq> [] then
        (let last_tok = last toks
         in if last_tok \<notin> set STOP \<and> is_alpha_word last_tok then
              (if length last_tok < 3 then []
               else
                 (case find (\<lambda>pp. endswith last_tok (snd pp) \<or> contains last_tok (fst pp))
                            (zip CITY_PATTERNS_SORTED CITY_PATTERNS_NOSPACE) of
                    Some pp \<Rightarrow> fst pp
                  | None \<Rightarrow> last_tok))
            else [])
      else [])"

text \<open>
  The city steps of \<open>_extract_location\<close> after the province is known: the token
  heuristic (not in mode \<open>domain\<close>), the scan of the gazetteer, the Halifax rule
  and the final composition.
\<close>

definition locate_city :: "string \<Rightarrow> string \<Rightarrow> string \<Rightarrow> string \<times> string \<times> string" where
  "locate_city prov mode tail_alpha =
     (let toks = split tail_alpha;
          cand_city = (if mode = ''domain'' then [] else pick_city_from_tokens toks);
          cand_city =
            (if cand_city = [] \<or> cand_city \<in> set STOP then
               (case find (\<lambda>pat. contains tail_alpha pat) CITY_PATTERNS_SORTED of
                  Some pat \<Rightarrow> pat
                | None \<Rightarrow> cand_city)
             else cand_city);
          cand_city =
            (if cand_city = [] \<and> prov = ''NS'' \<and> contains tail_alpha ''HALIFAX''
             then ''HALIFAX'' else cand_city)
      in if cand_city \<noteq> [] \<and> cand_city \<notin> set STOP then
           (let city_norm = normalize_city cand_city
            in (city_norm @ '' '' @ prov, city_norm, prov))
         else ([], [], prov))"

text \<open>\<open>_extract_location\<close>: the triple (location, city, province).\<close>

definition extract_location :: "string \<Rightarrow> string \<times> string \<times> string" where
  "extract_location desc =
     (let U = strip (upper desc)
      in case detect_province_suffix U of
           None \<Rightarrow> ([], [], [])
         | Some (m, prov, mode) \<Rightarrow> locate_city prov mode (tail_alpha_of U m))"

subsection \<open>Noise\<close>

text \<open>
  \<open>^Page \d+ of \d+$\<close>, \<open>\<^verbatim>\<open>^\*\d{7,}\*$\<close>\<close> and \<open>^-?\d{3}-\d{6,}$\<close>
\<close>

definition PAGE_RE :: rx where
  "PAGE_RE =
     seqs [Bol, Lit ''Page '', Rep is_digit 1 None True, Lit '' of '',
           Rep is_digit 1 None True, Eol]"

definition BARCODE_RE :: rx where
  "BARCODE_RE = seqs [Bol, Lit ''*'', Rep is_digit 7 None True, Lit ''*'', Eol]"

definition REFCODE_RE :: rx where
  "REFCODE_RE =
     seqs [Bol, Rep (\<lambda>c. c = CHR ''-'') 0 (Some 1) True, Rep is_digit 3 (Some 3) True,
           Lit ''-'', Rep is_digit 6 None True, Eol]"

definition is_noise :: "string \<Rightarrow> bool" where
  "is_noise line =
     (let s = strip line
      in if s = [] then True
         else if startswith s CARD_NUMBER_PREFIX then True
         else if startswith s TOTAL_FOR_PREFIX then True
         else if re_match PAGE_RE s \<noteq> None then True
         else if re_match BARCODE_RE s \<noteq> None then True
         else if re_match REFCODE_RE s \<noteq> None then True
         else False)"

section \<open>The section scanner and the statement assembler\<close>

text \<open>
  The local variables of the loop in \<open>_parse_pages_text\<close>: the two section flags
  and the two lists of records.
\<close>

record scan_state =
  in_payments :: bool
  in_charges :: bool
  payments :: "PaymentRow list"
  txns :: "TransactionRow list"

text \<open>
  The body of the loop for one raw line. Both dates of a row are normalised before
  the section is looked at, so a date that cannot be normalised raises whatever the
  section is.
\<close>

definition scan_line ::
  "(string \<Rightarrow> error + datetime) \<Rightarrow> int \<Rightarrow> scan_state \<Rightarrow> string \<Rightarrow> error + scan_state" where
  "scan_line dtparse year st raw_line =
     (let line = norm_ws raw_line
      in if startswith line PAYMENTS_START
           then Inr (st\<lparr>in_payments := True, in_charges := False\<rparr>)
         else if startswith line CHARGES_START
           then Inr (st\<lparr>in_charges := True, in_payments := False\<rparr>)
         else if in_payments st \<and> startswith line PAYMENTS_TOTAL_PREFIX
           then Inr (st\<lparr>in_payments := False\<rparr>)
         else if is_noise line then Inr st
         else
           (case re_match ROW_RE line of
              None \<Rightarrow> Inr st
            | Some m \<Rightarrow>
                (case normalize_date dtparse (group m ''tdate'') year of
                   Inl e \<Rightarrow> Inl e
                 | Inr tdate \<Rightarrow>
                     (case normalize_date dtparse (group m ''pdate'') year of
                        Inl e \<Rightarrow> Inl e
                      | Inr pdate \<Rightarrow>
                          (let body = group m ''body'';
                               amt_str = replace (group m ''amount'') '','' [];
                               amount = PyFloat amt_str
                           in if in_payments st then
                                Inr (st\<lparr>payments := payments st @
                                       [\<lparr>p_trans_date = tdate, p_post_date = pdate,
                                         p_description = body, p_amount = amount,
                                         p_source = ''CIBC''\<rparr>]\<rparr>)
                              else if in_charges st then
                                (let cd = find_category_and_desc body;
                                     cat = fst cd; desc = snd cd;
                                     lcp = extract_location desc
                                 in Inr (st\<lparr>txns := txns st @
                                       [\<lparr>t_trans_date = tdate, t_post_date = pdate,
                                         t_description = desc, t_category = cat,
                                         t_amount = amount, t_location = fst lcp,
                                         t_city = fst (snd lcp), t_province = snd (snd lcp),
                                         t_source = ''CIBC''\<rparr>]\<rparr>))
                              else Inr st)))))"

fun scan_lines ::
  "(string \<Rightarrow> error + datetime) \<Rightarrow> int \<Rightarrow> scan_state \<Rightarrow> string list \<Rightarrow> error + scan_state" where
  "scan_lines dtparse year st [] = Inr st"
| "scan_lines dtparse year st (l # ls) =
     (case scan_line dtparse year st l of
        Inl e \<Rightarrow> Inl e
      | Inr st' \<Rightarrow> scan_lines dtparse year st' ls)"

fun scan_pages ::
  "(string \<Rightarrow> error + datetime) \<Rightarrow> int \<Rightarrow> scan_state \<Rightarrow> string list \<Rightarrow> error + scan_state" where
  "scan_pages dtparse year st [] = Inr st"
| "scan_pages dtparse year st (page_text # rest) =
     (case scan_lines dtparse year st (splitlines page_text) of
        Inl e \<Rightarrow> Inl e
      | Inr st' \<Rightarrow> scan_pages dtparse year st' rest)"

text \<open>
  The final cleaning of the description column:
  \<open>\<^verbatim>\<open>.str.replace(r"\s{2,}", " ", regex=True).str.strip()\<close>\<close>.
\<close>

definition clean_text :: "string \<Rightarrow> string" where
  "clean_text s = strip (re_sub (Rep is_space 2 None True) '' '' s)"

definition initial_state :: scan_state where
  "initial_state = \<lparr>in_payments = False, in_charges = False, payments = [], txns = []\<rparr>"

text \<open>
  \<open>_parse_pages_text\<close>, with the date library and the current year as arguments.
  The two tables are modelled as the two lists of rows, in the order in which the
  rows were met; the conversion of the date and amount columns to the column types
  of pandas is not modelled.
\<close>

definition parse_pages_text ::
  "(string \<Rightarrow> error + datetime) \<Rightarrow> int \<Rightarrow> string list \<Rightarrow>
     error + (PaymentRow list \<times> TransactionRow list)" where
  "parse_pages_text dtparse now pages_text =
     (let year = extract_year now pages_text
      in case scan_pages dtparse year initial_state pages_text of
           Inl e \<Rightarrow> Inl e
         | Inr st \<Rightarrow>
             Inr (map (\<lambda>p. p\<lparr>p_description := clean_text (p_description p)\<rparr>) (payments st),
                  map (\<lambda>t. t\<lparr>t_description := clean_text (t_description t)\<rparr>) (txns st)))"

section \<open>Notions used in the statements\<close>

text \<open>The text ends with one of the known category labels.\<close>

definition has_known_label :: "string \<Rightarrow> bool" where
  "has_known_label b = list_ex (\<lambda>cat. endswith b cat) KNOWN_CATEGORIES"

text \<open>A text with at least one character that is not white space.\<close>

definition has_word :: "string \<Rightarrow> bool" where
  "has_word s = list_ex (\<lambda>c. \<not> is_space c) s"

text \<open>
  The relation between the location fields of a transaction: a city comes with the
  location \<open>City PROV\<close>, and without a city the location is empty.
\<close>

definition fields_ok :: "TransactionRow \<Rightarrow> bool" where
  "fields_ok t = ((t_city t \<noteq> [] \<longrightarrow> t_location t = t_city t @ '' '' @ t_province t) \<and>
                  (t_city t = [] \<longrightarrow> t_location t = []))"

text \<open>
  A statement of two pages (processed in the year 2025, which it does not
  mention), and the two records it holds.
\<close>

definition page_one :: string where
  "page_one = ''Your payments'' @ [CHR 0x0A] @
     ''Jan 3 Jan 4 PAYMENT THANK YOU 1,250.00'' @ [CHR 0x0A] @
     ''Total payments $1,250.00''"

definition page_two :: string where
  "page_two = ''Your new charges and credits'' @ [CHR 0x0A] @
     ''Jan 5 Jan 7 TIM HORTONS #123 OTTAWA ON Restaurants 12.34''"

text \<open>The matches of the row pattern on the two rows of the statement.\<close>

definition payment_match :: rmatch where
  "payment_match =
     \<lparr>m_start = 0, m_end = 38,
      m_groups = [(''tdate'', ''Jan 3''), (''pdate'', ''Jan 4''),
                  (''body'', ''PAYMENT THANK YOU''), (''amount'', ''1,250.00'')]\<rparr>"

definition charge_match :: rmatch where
  "charge_match =
     \<lparr>m_start = 0, m_end = 56,
      m_groups = [(''tdate'', ''Jan 5''), (''pdate'', ''Jan 7''),
                  (''body'', ''TIM HORTONS #123 OTTAWA ON Restaurants''),
                  (''amount'', ''12.34'')]\<rparr>"

definition example_payment :: PaymentRow where
  "example_payment =
     \<lparr>p_trans_date = \<lparr>dt_year = 2025, dt_month = 1, dt_day = 3\<rparr>,
      p_post_date = \<lparr>dt_year = 2025, dt_month = 1, dt_day = 4\<rparr>,
      p_description = ''PAYMENT THANK YOU'', p_amount = PyFloat ''1250.00'',
      p_source = ''CIBC''\<rparr>"

definition example_txn :: TransactionRow where
  "example_txn =
     \<lparr>t_trans_date = \<lparr>dt_year = 2025, dt_month = 1, dt_day = 5\<rparr>,
      t_post_date = \<lparr>dt_year = 2025, dt_month = 1, dt_day = 7\<rparr>,
      t_description = ''TIM HORTONS #123 OTTAWA ON'', t_category = ''Restaurants'',
      t_amount = PyFloat ''12.34'', t_location = ''Ottawa ON'', t_city = ''Ottawa'',
      t_province = ''ON'', t_source = ''CIBC''\<rparr>"

text \<open>
  A line that is neither a section header, nor a payments-total line, nor a line
  that matches the row pattern.
\<close>

definition plain_line :: "string \<Rightarrow> bool" where
  "plain_line l =
     (\<not> startswith (norm_ws l) PAYMENTS_START \<and> \<not> startswith (norm_ws l) CHARGES_START \<and>
      \<not> startswith (norm_ws l) PAYMENTS_TOTAL_PREFIX \<and> re_match ROW_RE (norm_ws l) = None)"

text \<open>
  The same two records on pages that hold further lines: the period of the
  statement, a table heading, the card number, a total and the page footers.
\<close>

definition first_page :: string where
  "first_page = ''Transactions from Dec 15 to Jan 14, 2025'' @ [CHR 0x0A] @
     ''Your payments'' @ [CHR 0x0A] @
     ''Trans date Post date Description Amount($)'' @ [CHR 0x0A] @
     ''Jan 3 Jan 4 PAYMENT THANK YOU 1,250.00'' @ [CHR 0x0A] @
     ''Total payments $1,250.00'' @ [CHR 0x0A] @
     ''Page 1 of 2''"

definition second_page :: string where
  "second_page = ''Your new charges and credits'' @ [CHR 0x0A] @
     ''Card number 4500 XXXX XXXX 1234'' @ [CHR 0x0A] @
     ''Jan 5 Jan 7 TIM HORTONS #123 OTTAWA ON Restaurants 12.34'' @ [CHR 0x0A] @
     ''Total for 4500 XXXX XXXX 1234 $12.34'' @ [CHR 0x0A] @
     ''Page 2 of 2''"

text \<open>A first page whose payment row has the day 0.\<close>

definition first_page_day_0 :: string where
  "first_page_day_0 = ''Your payments'' @ [CHR 0x0A] @
     ''Jan 0 Jan 4 PAYMENT THANK YOU 1,250.00'' @ [CHR 0x0A] @
     ''Total payments $1,250.00''"





subsection \<open>The row grammar\<close>

text \<open>
  What a pattern means, said without the matcher: \<open>rxm r i s g u g'\<close> holds when
  the pattern \<open>r\<close>, at position \<open>i\<close> with the text \<open>s\<close> ahead and the groups \<open>g\<close>
  captured so far, can consume the text \<open>u\<close> and leave the groups \<open>g'\<close>.
\<close>

fun rxm :: "rx \<Rightarrow> nat \<Rightarrow> string \<Rightarrow> groups \<Rightarrow> string \<Rightarrow> groups \<Rightarrow> bool" where
  "rxm (Lit l) i s g u g' = (u = l \<and> g' = g)"
| "rxm (Cls p) i s g u g' = (\<exists>c. u = [c] \<and> p c \<and> g' = g)"
| "rxm (Rep p lo hi greedy) i s g u g' =
     (list_all p u \<and> count_ok lo hi (length u) \<and> g' = g)"
| "rxm (Seq a b) i s g u g' =
     (\<exists>u1 u2 g1. u = u1 @ u2 \<and> rxm a i s g u1 g1 \<and>
                  rxm b (i + length u1) (drop (length u1) s) g1 u2 g')"
| "rxm (Alt a b) i s g u g' = (rxm a i s g u g' \<or> rxm b i s g u g')"
| "rxm (Grp n r) i s g u g' = (\<exists>g1. rxm r i s g u g1 \<and> g' = g1 @ [(n, u)])"
| "rxm Bol i s g u g' = (u = [] \<and> i = 0 \<and> g' = g)"
| "rxm Eol i s g u g' = (u = [] \<and> (s = [] \<or> s = [CHR 0x0A]) \<and> g' = g)"
| "rxm (Ahead p) i s g u g' = (u = [] \<and> s \<noteq> [] \<and> p (hd s) \<and> g' = g)"

text \<open>
  The parts of a row. White space between the parts is a non-empty run of
  white-space characters. A date is an abbreviated month name, white space and a
  day of one or two digits. An amount, as the matcher takes it, is an optional
  minus sign, a digit, then digits and commas in any arrangement, and then nothing
  more or a point with up to two digits.
\<close>

definition blank_run :: "string \<Rightarrow> bool" where
  "blank_run w = (w \<noteq> [] \<and> list_all is_space w)"

definition date_text :: "string \<Rightarrow> bool" where
  "date_text t =
     (let day = dropWhile is_space (drop 3 t)
      in take 3 t \<in> set MONTH_3_NAMES \<and> takeWhile is_space (drop 3 t) \<noteq> [] \<and>
         day \<noteq> [] \<and> length day \<le> 2 \<and> list_all is_digit day)"

definition amount_text :: "string \<Rightarrow> bool" where
  "amount_text a =
     (let b = (if take 1 a = ''-'' then drop 1 a else a);
          r = dropWhile (\<lambda>c. is_digit c \<or> c = CHR '','') (drop 1 b)
      in b \<noteq> [] \<and> is_digit (hd b) \<and>
         (r = [] \<or> (hd r = CHR ''.'' \<and> length (tl r) \<le> 2 \<and> list_all is_digit (tl r))))"

text \<open>
  A row split into two dates, a body and an amount, with the white space between
  them.
\<close>

definition row_parts ::
  "string \<Rightarrow> string \<Rightarrow> string \<Rightarrow> string \<Rightarrow> string \<Rightarrow> string \<Rightarrow> string \<Rightarrow> bool" where
  "row_parts td w1 pd w2 body w3 amt =
     (date_text td \<and> blank_run w1 \<and> date_text pd \<and> blank_run w2 \<and> body \<noteq> [] \<and>
      blank_run w3 \<and> amount_text amt)"

text \<open>White space and an amount, up to the end of the text.\<close>

definition amount_tail :: "string \<Rightarrow> bool" where
  "amount_tail t =
     (takeWhile is_space t \<noteq> [] \<and> amount_text (dropWhile is_space t))"

text \<open>
  The amount in the words of the specification, a comma-grouped decimal: an
  optional minus sign, groups of digits separated by single commas, and then
  nothing more or a point with up to two digits.
\<close>

fun comma_groups :: "string \<Rightarrow> string \<Rightarrow> string list" where
  "comma_groups cur [] = [cur]"
| "comma_groups cur (c # cs) =
     (if c = CHR '','' then cur # comma_groups [] cs else comma_groups (cur @ [c]) cs)"

definition comma_grouped_decimal :: "string \<Rightarrow> bool" where
  "comma_grouped_decimal a =
     (let b = (if take 1 a = ''-'' then drop 1 a else a);
          whole = takeWhile (\<lambda>c. c \<noteq> CHR ''.'') b;
          r = dropWhile (\<lambda>c. c \<noteq> CHR ''.'') b
      in list_all (\<lambda>grp. grp \<noteq> [] \<and> list_all is_digit grp) (comma_groups [] whole) \<and>
         (r = [] \<or> (length (tl r) \<le> 2 \<and> list_all is_digit (tl r))))"

text \<open>The end of the text, or a last line feed before it: where \<open>$\<close> matches.\<close>

definition line_end :: "string \<Rightarrow> bool" where
  "line_end t = (t = [] \<or> t = [CHR 0x0A])"

section \<open>Words and white space\<close>
lemma split_acc_words:
  "\<forall>c\<in>set cur. \<not> is_space c \<Longrightarrow> t \<in> set (split_acc cur s) \<Longrightarrow>
   t \<noteq> [] \<and> (\<forall>c\<in>set t. \<not> is_space c)"
proof (induction s arbitrary: cur)
  case Nil
  then show ?case by (auto split: if_splits)
next
  case (Cons a s)
  show ?case
  proof (cases "is_space a")
    case True
    with Cons.prems have "(t = cur \<and> cur \<noteq> []) \<or> t \<in> set (split_acc [] s)"
      by (auto split: if_splits)
    then show ?thesis using Cons.IH [of "[]"] Cons.prems(1) by auto
  next
    case False
    with Cons.prems have "t \<in> set (split_acc (cur @ [a]) s)" by simp
    then show ?thesis using Cons.IH [of "cur @ [a]"] Cons.prems(1) False by auto
  qed
qed

lemma split_words: "t \<in> set (split s) \<Longrightarrow> t \<noteq> [] \<and> (\<forall>c\<in>set t. \<not> is_space c)"
  using split_acc_words [of "[]" t s] by (simp add: split_def)

lemma split_word_has_word: "t \<in> set (split s) \<Longrightarrow> has_word t"
  using split_words [of t s] by (cases t) (auto simp: has_word_def list_ex_iff)

lemma split_acc_nonempty:
  "has_word (cur @ s) \<Longrightarrow> split_acc cur s \<noteq> []"
  by (induction s arbitrary: cur) (auto simp: has_word_def list_ex_iff)

lemma split_nonempty: "has_word s \<Longrightarrow> split s \<noteq> []"
  using split_acc_nonempty [of "[]" s] by (simp add: split_def)

lemma join_nonempty: "xs \<noteq> [] \<Longrightarrow> hd xs \<noteq> [] \<Longrightarrow> join sep xs \<noteq> []"
  by (induction sep xs rule: join.induct) auto

lemma join_has_word: "xs \<noteq> [] \<Longrightarrow> has_word (hd xs) \<Longrightarrow> has_word (join sep xs)"
  by (induction sep xs rule: join.induct) (auto simp: has_word_def list_ex_iff)

lemma norm_ws_has_word: "has_word s \<Longrightarrow> has_word (norm_ws s)"
proof -
  assume h: "has_word s"
  then have ne: "split s \<noteq> []" by (rule split_nonempty)
  then have "hd (split s) \<in> set (split s)" by simp
  then have "has_word (hd (split s))" by (rule split_word_has_word)
  with ne show ?thesis unfolding norm_ws_def by (rule join_has_word)
qed

lemma capitalize_nonempty: "t \<noteq> [] \<Longrightarrow> capitalize t \<noteq> []"
  by (cases t) (auto simp: capitalize_def)

lemma normalize_city_nonempty: "has_word s \<Longrightarrow> normalize_city s \<noteq> []"
proof -
  assume "has_word s"
  then have ne: "split (norm_ws s) \<noteq> []"
    by (intro split_nonempty norm_ws_has_word)
  then have "hd (split (norm_ws s)) \<in> set (split (norm_ws s))" by simp
  then have "hd (split (norm_ws s)) \<noteq> []" using split_words by blast
  then have "hd (map capitalize (split (norm_ws s))) \<noteq> []"
    using ne by (simp add: hd_map capitalize_nonempty)
  then show ?thesis
    unfolding normalize_city_def using ne by (intro join_nonempty) auto
qed


section \<open>Location inference\<close>

lemma gazetteer_all:
  "list_all (\<lambda>pat. has_word pat \<and> pat \<notin> set STOP) CITY_PATTERNS_SORTED"
  by code_simp

lemma find_SomeD: "find P xs = Some x \<Longrightarrow> x \<in> set xs \<and> P x"
  by (induction xs) (auto split: if_splits)

lemma gazetteer_word: "pat \<in> set CITY_PATTERNS_SORTED \<Longrightarrow> has_word pat \<and> pat \<notin> set STOP"
  using gazetteer_all by (simp add: list_all_iff)

lemma has_word_nonempty: "has_word s \<Longrightarrow> s \<noteq> []"
  by (auto simp: has_word_def)

lemma joiners_words: "t \<in> set JOINERS \<Longrightarrow> has_word t"
  by (auto simp: JOINERS_def has_word_def is_space_def)

lemma has_word_append: "has_word b \<Longrightarrow> has_word (a @ b)"
  by (auto simp: has_word_def list_ex_iff)

lemma pick_city_word:
  "pick_city_from_tokens (split ta) = [] \<or> has_word (pick_city_from_tokens (split ta))"
proof -
  let ?toks = "split ta"
  have fnd: "\<And>P pp. find P (zip CITY_PATTERNS_SORTED CITY_PATTERNS_NOSPACE) = Some pp \<Longrightarrow>
      has_word (fst pp)"
  proof -
    fix P pp
    assume "find P (zip CITY_PATTERNS_SORTED CITY_PATTERNS_NOSPACE) = Some pp"
    then have "pp \<in> set (zip CITY_PATTERNS_SORTED CITY_PATTERNS_NOSPACE)"
      by (auto dest: find_SomeD)
    then have "fst pp \<in> set CITY_PATTERNS_SORTED"
      using set_zip_leftD [of "fst pp" "snd pp"] by simp
    then show "has_word (fst pp)" using gazetteer_word by blast
  qed
  have lst: "?toks \<noteq> [] \<Longrightarrow> has_word (last ?toks)"
    using split_word_has_word [of "last ?toks" ta] by simp
  show ?thesis
  proof (cases "length ?toks \<ge> 2 \<and> last ?toks \<in> set JOINERS \<and>
                is_alpha_word (last (butlast ?toks))")
    case True
    then have "has_word (last ?toks)" by (simp add: joiners_words)
    then have "has_word ((last (butlast ?toks) @ '' '') @ last ?toks)"
      by (rule has_word_append)
    with True show ?thesis by (simp add: pick_city_from_tokens_def)
  next
    case False
    then show ?thesis
      unfolding pick_city_from_tokens_def Let_def
      using fnd lst by (auto split: option.splits)
  qed
qed

lemma locate_city_shape:
  assumes "locate_city prov mode ta = (loc, cty, pr)"
  shows "pr = prov \<and> (cty \<noteq> [] \<longrightarrow> loc = cty @ '' '' @ prov) \<and> (cty = [] \<longrightarrow> loc = [])"
proof -
  define c1 where "c1 = (if mode = ''domain'' then [] else pick_city_from_tokens (split ta))"
  define c2 where "c2 =
     (if c1 = [] \<or> c1 \<in> set STOP then
        (case find (\<lambda>pat. contains ta pat) CITY_PATTERNS_SORTED of
           Some pat \<Rightarrow> pat | None \<Rightarrow> c1)
      else c1)"
  define c3 where "c3 =
     (if c2 = [] \<and> prov = ''NS'' \<and> contains ta ''HALIFAX'' then ''HALIFAX'' else c2)"
  have w1: "c1 = [] \<or> has_word c1"
    using pick_city_word [of ta] by (auto simp: c1_def)
  have w2: "c2 = [] \<or> has_word c2"
    using w1 gazetteer_word
    by (auto simp: c2_def dest: find_SomeD split: option.splits)
  have w3: "c3 = [] \<or> has_word c3"
    using w2 by (auto simp: c3_def has_word_def is_space_def)
  have res: "locate_city prov mode ta =
     (if c3 \<noteq> [] \<and> c3 \<notin> set STOP
      then (normalize_city c3 @ '' '' @ prov, normalize_city c3, prov) else ([], [], prov))"
    by (simp only: locate_city_def Let_def c1_def c2_def c3_def)
  show ?thesis
  proof (cases "c3 \<noteq> [] \<and> c3 \<notin> set STOP")
    case True
    then have "normalize_city c3 \<noteq> []" using w3 normalize_city_nonempty by blast
    with True res assms show ?thesis by auto
  next
    case False
    with res assms show ?thesis by auto
  qed
qed

lemma extract_location_shape:
  assumes "extract_location d = (loc, cty, pr)"
  shows "(cty \<noteq> [] \<longrightarrow> loc = cty @ '' '' @ pr) \<and> (cty = [] \<longrightarrow> loc = [])"
proof (cases "detect_province_suffix (strip (upper d))")
  case None
  with assms show ?thesis by (simp add: extract_location_def)
next
  case (Some r)
  obtain m prov mode where r: "r = (m, prov, mode)" by (cases r) auto
  with Some assms
  have "locate_city prov mode (tail_alpha_of (strip (upper d)) m) = (loc, cty, pr)"
    by (simp add: extract_location_def)
  from locate_city_shape [OF this] show ?thesis by auto
qed


text \<open>
  Claim C6. When none of the four strategies (space-delimited, hyphen-glued, domain
  tail, glued city and province) finds a province at the end of the upper-cased,
  trimmed description, \<open>_extract_location\<close> returns three empty strings; in
  particular it does so for \<open>WWW.AMAZON.CA\<close>.
\<close>

theorem extract_location_no_province:
  "(strategy_space (strip (upper d)) = None \<and> strategy_hyphen (strip (upper d)) = None \<and>
    strategy_domain (strip (upper d)) = None \<and> strategy_gluedcity (strip (upper d)) = None
      \<longrightarrow> extract_location d = ([], [], [])) \<and>
   extract_location ''WWW.AMAZON.CA'' = ([], [], [])"
proof -
  have "extract_location ''WWW.AMAZON.CA'' = ([], [], [])" by code_simp
  then show ?thesis
    by (simp add: extract_location_def detect_province_suffix_def)
qed

theorem extract_location_no_province_witness:
  "strategy_space (strip (upper ''WWW.AMAZON.CA'')) = None \<and>
   strategy_hyphen (strip (upper ''WWW.AMAZON.CA'')) = None \<and>
   strategy_domain (strip (upper ''WWW.AMAZON.CA'')) = None \<and>
   strategy_gluedcity (strip (upper ''WWW.AMAZON.CA'')) = None \<and>
   extract_location ''WWW.AMAZON.CA'' = ([], [], [])"
proof -
  have h: "strategy_space (strip (upper ''WWW.AMAZON.CA'')) = None \<and>
           strategy_hyphen (strip (upper ''WWW.AMAZON.CA'')) = None \<and>
           strategy_domain (strip (upper ''WWW.AMAZON.CA'')) = None \<and>
           strategy_gluedcity (strip (upper ''WWW.AMAZON.CA'')) = None"
    by code_simp
  with extract_location_no_province [of "''WWW.AMAZON.CA''"] show ?thesis by blast
qed

section \<open>The scanner\<close>

lemma scan_line_txns:
  assumes "scan_line P year st raw = Inr st'"
  shows "txns st' = txns st \<or>
         (\<exists>t d. txns st' = txns st @ [t] \<and>
                 (t_location t, t_city t, t_province t) = extract_location d)"
  using assms unfolding scan_line_def Let_def
  by (auto split: if_splits option.splits sum.splits)

lemma scan_line_fields:
  assumes "scan_line P year st raw = Inr st'" "list_all fields_ok (txns st)"
  shows "list_all fields_ok (txns st')"
proof -
  from scan_line_txns [OF assms(1)] show ?thesis
  proof
    assume "txns st' = txns st"
    with assms(2) show ?thesis by simp
  next
    assume "\<exists>t d. txns st' = txns st @ [t] \<and>
                 (t_location t, t_city t, t_province t) = extract_location d"
    then obtain t d where t: "txns st' = txns st @ [t]"
      and d: "extract_location d = (t_location t, t_city t, t_province t)" by auto
    from extract_location_shape [OF d] have "fields_ok t" by (simp add: fields_ok_def)
    with t assms(2) show ?thesis by simp
  qed
qed

lemma scan_lines_fields:
  "scan_lines P year st ls = Inr st' \<Longrightarrow> list_all fields_ok (txns st) \<Longrightarrow>
   list_all fields_ok (txns st')"
proof (induction ls arbitrary: st)
  case Nil
  then show ?case by simp
next
  case (Cons l ls)
  then show ?case
    by (auto split: sum.splits dest: scan_line_fields)
qed

lemma scan_pages_fields:
  "scan_pages P year st ps = Inr st' \<Longrightarrow> list_all fields_ok (txns st) \<Longrightarrow>
   list_all fields_ok (txns st')"
proof (induction ps arbitrary: st)
  case Nil
  then show ?case by simp
next
  case (Cons p ps)
  then show ?case
    by (auto split: sum.splits dest: scan_lines_fields)
qed

lemma parse_pages_fields:
  assumes "parse_pages_text P now pages = Inr (ps, ts)"
  shows "list_all fields_ok ts"
proof -
  from assms obtain st where st: "scan_pages P (extract_year now pages) initial_state pages = Inr st"
    and ts: "ts = map (\<lambda>t. t\<lparr>t_description := clean_text (t_description t)\<rparr>) (txns st)"
    by (auto simp: parse_pages_text_def Let_def split: sum.splits)
  have "list_all fields_ok (txns st)"
    using scan_pages_fields [OF st] by (simp add: initial_state_def)
  then show ?thesis by (simp add: ts list_all_iff fields_ok_def)
qed

lemma example_statement:
  "parse_pages_text (dtparse_ref 2025) 2025 [page_one, page_two] =
     Inr ([example_payment], [example_txn])"
  by code_simp

text \<open>
  Claim C10. For every description, the triple (location, city, province) that
  \<open>_extract_location\<close> returns has the location \<open>City PROV\<close> when the city is
  not empty and an empty location when the city is empty; the same holds for the
  fields of every transaction row that \<open>_parse_pages_text\<close> returns. A province
  with empty city and empty location is a possible result: \<open>WWW.AMAZON.CAON\<close>
  gives the province \<open>ON\<close> alone.
\<close>

theorem location_fields_invariant:
  "(\<forall>loc cty prov. extract_location d = (loc, cty, prov) \<longrightarrow>
       (cty \<noteq> [] \<longrightarrow> loc = cty @ '' '' @ prov) \<and> (cty = [] \<longrightarrow> loc = [])) \<and>
   (\<forall>ps ts. parse_pages_text P now pages = Inr (ps, ts) \<longrightarrow> list_all fields_ok ts) \<and>
   extract_location ''WWW.AMAZON.CAON'' = ([], [], ''ON'')"
proof -
  have "extract_location ''WWW.AMAZON.CAON'' = ([], [], ''ON'')" by code_simp
  then show ?thesis
    using extract_location_shape parse_pages_fields by blast
qed

theorem location_fields_invariant_witness:
  "extract_location ''TIM HORTONS #123 OTTAWA ON'' = (''Ottawa ON'', ''Ottawa'', ''ON'') \<and>
   ''Ottawa'' \<noteq> [] \<and> ''Ottawa ON'' = ''Ottawa'' @ '' '' @ ''ON'' \<and>
   parse_pages_text (dtparse_ref 2025) 2025 [page_one, page_two] =
     Inr ([example_payment], [example_txn]) \<and>
   list_all fields_ok [example_txn] \<and>
   extract_location ''WWW.AMAZON.CAON'' = ([], [], ''ON'')"
proof -
  have a: "extract_location ''TIM HORTONS #123 OTTAWA ON'' = (''Ottawa ON'', ''Ottawa'', ''ON'')"
    by code_simp
  have b: "parse_pages_text (dtparse_ref 2025) 2025 [page_one, page_two] =
     Inr ([example_payment], [example_txn])"
    by (rule example_statement)
  from location_fields_invariant
    [of "''TIM HORTONS #123 OTTAWA ON''" "dtparse_ref 2025" 2025 "[page_one, page_two]"]
  show ?thesis using a b by auto
qed

section \<open>Domain tails and the Halifax step\<close>

lemma find_None_all: "find P xs = None \<Longrightarrow> x \<in> set xs \<Longrightarrow> \<not> P x"
  by (induction xs) (auto split: if_splits)

lemma halifax_listed: "''HALIFAX'' \<in> set CITY_PATTERNS_SORTED"
  by code_simp

lemma locate_city_domain:
  "locate_city prov ''domain'' ta =
     (case find (\<lambda>pat. contains ta pat) CITY_PATTERNS_SORTED of
        None \<Rightarrow> ([], [], prov)
      | Some pat \<Rightarrow> (normalize_city pat @ '' '' @ prov, normalize_city pat, prov))"
proof (cases "find (\<lambda>pat. contains ta pat) CITY_PATTERNS_SORTED")
  case None
  then have "\<not> contains ta ''HALIFAX''"
    using find_None_all halifax_listed by fast
  with None show ?thesis by (simp add: locate_city_def)
next
  case (Some pat)
  then have "pat \<in> set CITY_PATTERNS_SORTED" by (auto dest: find_SomeD)
  then have "pat \<noteq> [] \<and> pat \<notin> set STOP"
    using gazetteer_word has_word_nonempty by blast
  with Some show ?thesis by (simp add: locate_city_def Let_def)
qed

text \<open>
  Claim C7, as amended. When the upper-cased, trimmed description contains a
  URL or vendor marker and ends with a province code, and neither the
  space-delimited nor the hyphen-glued strategy applies, \<open>_extract_location\<close>
  accepts the province and skips the token heuristic for the city. The result is
  the province alone, with empty city and empty location, unless a city of the
  gazetteer occurs in the alphabetic tail: then the first such city, longest
  first, is reported with the location \<open>City PROV\<close>. The alphabetic tail is the
  text before the province code, right-trimmed and de-glued, in which every
  character that is neither a capital letter from A to Z nor white space is turned
  into a blank and runs of white space are merged into one blank; the blanks
  between its words are kept.
\<close>

theorem domain_tail_city:
  assumes "U = strip (upper d)"
    and "strategy_space U = None" and "strategy_hyphen U = None"
    and "has_domain_hint U" and "re_search PROV_DOMAIN_RE U = Some m"
  shows "extract_location d =
     (case find (\<lambda>pat. contains (tail_alpha_of U m) pat) CITY_PATTERNS_SORTED of
        None \<Rightarrow> ([], [], group m ''1'')
      | Some pat \<Rightarrow>
          (normalize_city pat @ '' '' @ group m ''1'', normalize_city pat, group m ''1''))"
proof -
  have "detect_province_suffix U = Some (m, group m ''1'', ''domain'')"
    using assms(2-5)
    by (simp add: detect_province_suffix_def strategy_domain_def with_mode_def)
  then show ?thesis
    using assms(1) by (simp add: extract_location_def locate_city_domain)
qed

text \<open>
  The claim as stated (no city in domain mode) fails for \<open>UBER.COM TORONTOON\<close>:
  the gazetteer scan finds Toronto.
\<close>

theorem domain_tail_city_counterexample:
  "strategy_space (strip (upper ''UBER.COM TORONTOON'')) = None \<and>
   strategy_hyphen (strip (upper ''UBER.COM TORONTOON'')) = None \<and>
   has_domain_hint (strip (upper ''UBER.COM TORONTOON'')) \<and>
   endswith (strip (upper ''UBER.COM TORONTOON'')) ''ON'' \<and>
   extract_location ''UBER.COM TORONTOON'' = (''Toronto ON'', ''Toronto'', ''ON'')"
  by code_simp

theorem domain_tail_city_witness:
  "strategy_space ''WWW.AMAZON.CAON'' = None \<and>
   strategy_hyphen ''WWW.AMAZON.CAON'' = None \<and>
   has_domain_hint ''WWW.AMAZON.CAON'' \<and>
   re_search PROV_DOMAIN_RE ''WWW.AMAZON.CAON'' =
     Some \<lparr>m_start = 13, m_end = 15, m_groups = [(''1'', ''ON'')]\<rparr> \<and>
   extract_location ''WWW.AMAZON.CAON'' = ([], [], ''ON'')"
proof -
  let ?U = "''WWW.AMAZON.CAON''"
  let ?m = "\<lparr>m_start = 13, m_end = 15, m_groups = [(''1'', ''ON'')]\<rparr>"
  have u: "?U = strip (upper ?U)" by code_simp
  have h: "strategy_space ?U = None \<and> strategy_hyphen ?U = None \<and> has_domain_hint ?U \<and>
           re_search PROV_DOMAIN_RE ?U = Some ?m"
    by code_simp
  have f: "find (\<lambda>pat. contains (tail_alpha_of ?U ?m) pat) CITY_PATTERNS_SORTED = None"
    by code_simp
  have g: "group ?m ''1'' = ''ON''" by code_simp
  from h have "extract_location ?U =
     (case find (\<lambda>pat. contains (tail_alpha_of ?U ?m) pat) CITY_PATTERNS_SORTED of
        None \<Rightarrow> ([], [], group ?m ''1'')
      | Some pat \<Rightarrow>
          (normalize_city pat @ '' '' @ group ?m ''1'', normalize_city pat, group ?m ''1''))"
    by (intro domain_tail_city [OF u]) blast+
  with f g h show ?thesis by simp
qed

text \<open>
  The Halifax step of \<open>_extract_location\<close> never changes the result: when the
  candidate is still empty after the scan of the gazetteer, no city of the
  gazetteer occurs in the tail, \<open>HALIFAX\<close> included. The function computes the
  same with the step left out.
\<close>

lemma halifax_step_unreachable:
  assumes "(if c = [] \<or> c \<in> set STOP then
              (case find (\<lambda>pat. contains ta pat) CITY_PATTERNS_SORTED of
                 Some pat \<Rightarrow> pat
               | None \<Rightarrow> c)
            else c) = []"
  shows "\<not> contains ta ''HALIFAX''"
proof
  assume h: "contains ta ''HALIFAX''"
  show False
  proof (cases "find (\<lambda>pat. contains ta pat) CITY_PATTERNS_SORTED")
    case None
    then have "\<not> contains ta ''HALIFAX''"
      using find_None_all halifax_listed by fast
    with h show False by simp
  next
    case (Some pat)
    then have "pat \<in> set CITY_PATTERNS_SORTED" by (auto dest: find_SomeD)
    then have "pat \<noteq> []"
      using gazetteer_word has_word_nonempty by blast
    with Some assms show False by (auto split: if_splits)
  qed
qed

lemma locate_city_without_halifax_step:
  "locate_city prov mode tail_alpha =
     (let toks = split tail_alpha;
          cand_city = (if mode = ''domain'' then [] else pick_city_from_tokens toks);
          cand_city =
            (if cand_city = [] \<or> cand_city \<in> set STOP then
               (case find (\<lambda>pat. contains tail_alpha pat) CITY_PATTERNS_SORTED of
                  Some pat \<Rightarrow> pat
                | None \<Rightarrow> cand_city)
             else cand_city)
      in if cand_city \<noteq> [] \<and> cand_city \<notin> set STOP then
           (let city_norm = normalize_city cand_city
            in (city_norm @ '' '' @ prov, city_norm, prov))
         else ([], [], prov))"
proof -
  let ?c = "if mode = ''domain'' then [] else pick_city_from_tokens (split tail_alpha)"
  let ?c2 = "if ?c = [] \<or> ?c \<in> set STOP then
               (case find (\<lambda>pat. contains tail_alpha pat) CITY_PATTERNS_SORTED of
                  Some pat \<Rightarrow> pat
                | None \<Rightarrow> ?c)
             else ?c"
  have "(if ?c2 = [] \<and> prov = ''NS'' \<and> contains tail_alpha ''HALIFAX''
         then ''HALIFAX'' else ?c2) = ?c2"
    using halifax_step_unreachable [of ?c tail_alpha] by (cases "?c2 = []") simp_all
  then show ?thesis
    unfolding locate_city_def Let_def by (simp only:)
qed

text \<open>
  Claim C8. The claim is what the code documents: the comment on the Halifax step
  says \<open>if we have HALIFAX somewhere and province NS, prefer Halifax\<close>, and the
  documentation of \<open>_detect_province_suffix\<close> and \<open>_extract_location\<close> names
  \<open>MID-HNS\<close> as a province preceded by a hyphen. The code does neither. In
  \<open>IC* INSTACART MID-HNS\<close> the hyphen does not stand directly before the province
  code, no strategy finds a province, and the result is the empty triple. In
  \<open>HALIFAX DARTMOUTH NS\<close> the province is \<open>NS\<close> and the tail contains
  \<open>HALIFAX\<close>, but the city is Dartmouth: the Halifax step is guarded by an empty
  candidate, and never applies.
\<close>

theorem halifax_rule_not_applied:
  "strategy_hyphen (strip (upper ''IC* INSTACART MID-HNS'')) = None \<and>
   detect_province_suffix (strip (upper ''IC* INSTACART MID-HNS'')) = None \<and>
   extract_location ''IC* INSTACART MID-HNS'' = ([], [], []) \<and>
   detect_province_suffix (strip (upper ''HALIFAX DARTMOUTH NS'')) =
     Some (\<lparr>m_start = 17, m_end = 20, m_groups = [(''1'', ''NS'')]\<rparr>, ''NS'', ''space'') \<and>
   contains (tail_alpha_of (strip (upper ''HALIFAX DARTMOUTH NS''))
               \<lparr>m_start = 17, m_end = 20, m_groups = [(''1'', ''NS'')]\<rparr>) ''HALIFAX'' \<and>
   extract_location ''HALIFAX DARTMOUTH NS'' = (''Dartmouth NS'', ''Dartmouth'', ''NS'')"
  by code_simp

section \<open>Category extraction\<close>

lemma endswith_iff: "endswith s p \<longleftrightarrow> (\<exists>u. s = u @ p)"
proof
  assume "endswith s p"
  then have "s = take (length s - length p) s @ p"
    by (metis append_take_drop_id endswith_def)
  then show "\<exists>u. s = u @ p" ..
next
  assume "\<exists>u. s = u @ p"
  then show "endswith s p" by (auto simp: endswith_def)
qed

lemma endswith_both:
  assumes "endswith b c1" and "endswith b c2" and "length c1 \<le> length c2"
  shows "endswith c2 c1"
proof -
  from assms(1) obtain u1 where u1: "b = u1 @ c1" by (auto simp: endswith_iff)
  from assms(2) obtain u2 where u2: "b = u2 @ c2" by (auto simp: endswith_iff)
  from u1 u2 have e: "u1 @ c1 = u2 @ c2" by simp
  have "length u2 \<le> length u1"
  proof -
    from e have "length u1 + length c1 = length u2 + length c2"
      by (metis length_append)
    with assms(3) show ?thesis by linarith
  qed
  with e have "c2 = drop (length u2) u1 @ c1"
    by (metis append_eq_conv_conj drop_append diff_is_0_eq' drop_0)
  then show ?thesis by (metis endswith_iff)
qed

lemma labels_no_suffix:
  "list_all (\<lambda>c1. list_all (\<lambda>c2. endswith c2 c1 \<longrightarrow> c1 = c2) KNOWN_CATEGORIES)
     KNOWN_CATEGORIES"
  by code_simp

lemma label_unique:
  assumes "c1 \<in> set KNOWN_CATEGORIES" and "c2 \<in> set KNOWN_CATEGORIES"
    and "endswith b c1" and "endswith b c2"
  shows "c1 = c2"
proof -
  have t: "\<And>x y. x \<in> set KNOWN_CATEGORIES \<Longrightarrow> y \<in> set KNOWN_CATEGORIES \<Longrightarrow>
             endswith y x \<Longrightarrow> x = y"
    using labels_no_suffix by (auto simp: list_all_iff)
  show ?thesis
  proof (cases "length c1 \<le> length c2")
    case True
    then have "endswith c2 c1" using assms(3,4) by (rule endswith_both [rotated 2])
    then show ?thesis using t assms(1,2) by blast
  next
    case False
    then have "length c2 \<le> length c1" by simp
    then have "endswith c1 c2" using assms(4,3) by (rule endswith_both [rotated 2])
    then show ?thesis using t assms(1,2) by blast
  qed
qed

lemma find_category_hit:
  assumes "cat \<in> set cats" and "endswith b cat"
    and "\<forall>c\<in>set cats. endswith b c \<longrightarrow> c = cat"
  shows "find_category b cats = (cat, rstrip (drop_right (length cat) b))"
  using assms
proof (induction cats)
  case Nil
  then show ?case by simp
next
  case (Cons a cats)
  show ?case
  proof (cases "endswith b a")
    case True
    then have "a = cat" using Cons.prems(3) by simp
    with True show ?thesis by simp
  next
    case False
    then have "a \<noteq> cat" using Cons.prems(2) by blast
    then have "cat \<in> set cats" using Cons.prems(1) by simp
    moreover have "\<forall>c\<in>set cats. endswith b c \<longrightarrow> c = cat"
      using Cons.prems(3) by simp
    ultimately have "find_category b cats = (cat, rstrip (drop_right (length cat) b))"
      using Cons.prems(2) by (intro Cons.IH)
    with False show ?thesis by simp
  qed
qed

lemma find_category_miss:
  "\<forall>c\<in>set cats. \<not> endswith b c \<Longrightarrow> find_category b cats = ([], b)"
  by (induction cats) auto

lemma find_category_find:
  "find_category b cats =
     (case find (\<lambda>c. endswith b c) cats of
        None \<Rightarrow> ([], b)
      | Some c \<Rightarrow> (c, rstrip (drop_right (length c) b)))"
  by (induction cats) simp_all

lemma set_sorted_longest_first: "set (sorted_longest_first xs) = set xs"
  by (simp add: sorted_longest_first_def)

lemma labels_longest_first:
  "sorted_wrt (\<lambda>a b. length b \<le> length a) (sorted_longest_first KNOWN_CATEGORIES)"
  by code_simp

lemma no_label:
  assumes "\<not> has_known_label (norm_ws body)"
  shows "find_category_and_desc body = ([], norm_ws body)"
proof -
  have "\<forall>c\<in>set (sorted_longest_first KNOWN_CATEGORIES). \<not> endswith (norm_ws body) c"
    using assms by (simp add: has_known_label_def list_ex_iff set_sorted_longest_first)
  then show ?thesis
    unfolding find_category_and_desc_def by (rule find_category_miss)
qed

text \<open>
  Claim C5, as amended. \<open>_find_category_and_desc\<close> tests the known labels longest
  first: the labels are tried in an order of decreasing length, and the first one
  that the whitespace-normalised body ends with decides the result. If the
  normalised body ends with a known label, the result is that label and the
  normalised body without the label, right-trimmed. If no label matches, the result
  is the empty category and the whitespace-normalised body, which is the body
  itself when the body is already normalised.
\<close>

theorem find_category_and_desc_spec:
  "(sorted_wrt (\<lambda>a b. length b \<le> length a) (sorted_longest_first KNOWN_CATEGORIES) \<and>
    find_category_and_desc body =
      (case find (\<lambda>c. endswith (norm_ws body) c) (sorted_longest_first KNOWN_CATEGORIES) of
         None \<Rightarrow> ([], norm_ws body)
       | Some c \<Rightarrow> (c, rstrip (drop_right (length c) (norm_ws body))))) \<and>
   (cat \<in> set KNOWN_CATEGORIES \<and> endswith (norm_ws body) cat \<longrightarrow>
      find_category_and_desc body =
        (cat, rstrip (drop_right (length cat) (norm_ws body)))) \<and>
   (\<not> has_known_label (norm_ws body) \<longrightarrow>
      find_category_and_desc body = ([], norm_ws body)) \<and>
   (\<not> has_known_label (norm_ws body) \<and> norm_ws body = body \<longrightarrow>
      find_category_and_desc body = ([], body))"
proof (intro conjI impI)
  show "sorted_wrt (\<lambda>a b. length b \<le> length a) (sorted_longest_first KNOWN_CATEGORIES)"
    by (rule labels_longest_first)
next
  show "find_category_and_desc body =
      (case find (\<lambda>c. endswith (norm_ws body) c) (sorted_longest_first KNOWN_CATEGORIES) of
         None \<Rightarrow> ([], norm_ws body)
       | Some c \<Rightarrow> (c, rstrip (drop_right (length c) (norm_ws body))))"
    unfolding find_category_and_desc_def by (rule find_category_find)
next
  assume a: "cat \<in> set KNOWN_CATEGORIES \<and> endswith (norm_ws body) cat"
  have m: "cat \<in> set (sorted_longest_first KNOWN_CATEGORIES)"
    using a by (simp only: set_sorted_longest_first)
  have u: "\<forall>c\<in>set (sorted_longest_first KNOWN_CATEGORIES).
             endswith (norm_ws body) c \<longrightarrow> c = cat"
  proof (intro ballI impI)
    fix c
    assume "c \<in> set (sorted_longest_first KNOWN_CATEGORIES)"
      and e: "endswith (norm_ws body) c"
    then have "c \<in> set KNOWN_CATEGORIES" by (simp only: set_sorted_longest_first)
    then show "c = cat" using a e by (blast intro: label_unique)
  qed
  from a have e: "endswith (norm_ws body) cat" by (rule conjunct2)
  show "find_category_and_desc body =
        (cat, rstrip (drop_right (length cat) (norm_ws body)))"
    unfolding find_category_and_desc_def using m e u by (rule find_category_hit)
next
  assume n: "\<not> has_known_label (norm_ws body)"
  show "find_category_and_desc body = ([], norm_ws body)"
    by (rule no_label [OF n])
next
  assume n: "\<not> has_known_label (norm_ws body) \<and> norm_ws body = body"
  then have "find_category_and_desc body = ([], norm_ws body)"
    using no_label by blast
  with n show "find_category_and_desc body = ([], body)" by (metis)
qed

text \<open>
  The claim as stated (the untouched body when no label matches) fails for a body
  with two blanks in a row: the blanks are merged.
\<close>

theorem find_category_and_desc_counterexample:
  "\<not> has_known_label (norm_ws ''A  B'') \<and>
   find_category_and_desc ''A  B'' = ([], ''A B'') \<and> ''A B'' \<noteq> ''A  B''"
  by code_simp

theorem find_category_and_desc_witness:
  "''Retail and Grocery'' \<in> set KNOWN_CATEGORIES \<and>
   endswith (norm_ws ''TIM HORTONS OTTAWA ON Retail and Grocery'') ''Retail and Grocery'' \<and>
   find_category_and_desc ''TIM HORTONS OTTAWA ON Retail and Grocery'' =
     (''Retail and Grocery'', ''TIM HORTONS OTTAWA ON'') \<and>
   \<not> has_known_label (norm_ws ''PAYMENT THANK YOU'') \<and>
   norm_ws ''PAYMENT THANK YOU'' = ''PAYMENT THANK YOU'' \<and>
   find_category_and_desc ''PAYMENT THANK YOU'' = ([], ''PAYMENT THANK YOU'')"
proof -
  have a: "''Retail and Grocery'' \<in> set KNOWN_CATEGORIES \<and>
     endswith (norm_ws ''TIM HORTONS OTTAWA ON Retail and Grocery'') ''Retail and Grocery''"
    by code_simp
  have b: "rstrip (drop_right (length ''Retail and Grocery'')
             (norm_ws ''TIM HORTONS OTTAWA ON Retail and Grocery'')) = ''TIM HORTONS OTTAWA ON''"
    by code_simp
  have c: "\<not> has_known_label (norm_ws ''PAYMENT THANK YOU'') \<and>
     norm_ws ''PAYMENT THANK YOU'' = ''PAYMENT THANK YOU''"
    by code_simp
  note r1raw = find_category_and_desc_spec
         [where cat = "''Retail and Grocery''"
            and body = "''TIM HORTONS OTTAWA ON Retail and Grocery''",
          THEN conjunct2, THEN conjunct1, THEN mp, OF a]
  have r1: "find_category_and_desc ''TIM HORTONS OTTAWA ON Retail and Grocery'' =
     (''Retail and Grocery'', ''TIM HORTONS OTTAWA ON'')"
    using r1raw by (simp only: b)
  note r2 = find_category_and_desc_spec
         [where cat = "''Retail and Grocery''" and body = "''PAYMENT THANK YOU''",
          THEN conjunct2, THEN conjunct2, THEN conjunct2, THEN mp, OF c]
  note a1 = a [THEN conjunct1] and a2 = a [THEN conjunct2]
    and c1 = c [THEN conjunct1] and c2 = c [THEN conjunct2]
  show ?thesis
    by (intro conjI) (rule a1 a2 r1 c1 c2 r2)+
qed

section \<open>Rows, headers and noise\<close>

lemma ms_Seq_empty: "ms a st g = [] \<Longrightarrow> ms (Seq a b) st g = []"
  by simp

lemma ms_Grp_empty: "ms r st g = [] \<Longrightarrow> ms (Grp n r) st g = []"
  by simp

lemma month_3_initial:
  assumes "ms MONTH_3 (i, s) g \<noteq> []"
  shows "\<exists>c cs. s = c # cs \<and> c \<in> set ''JFMASOND''"
proof (cases s)
  case Nil
  with assms show ?thesis by (simp add: MONTH_3_def MONTH_3_NAMES_def startswith_def)
next
  case (Cons c cs)
  with assms have "c \<in> set ''JFMASOND''"
    by (auto simp: MONTH_3_def MONTH_3_NAMES_def startswith_def split: if_splits)
  with Cons show ?thesis by blast
qed

lemma row_initial:
  assumes "re_match ROW_RE line = Some m"
  shows "\<exists>c cs. line = c # cs \<and> c \<in> set ''JFMASOND''"
proof -
  have "ms MONTH_3 (0, line) [] \<noteq> []"
  proof
    assume "ms MONTH_3 (0, line) [] = []"
    then have "ms DATE_RE (0, line) [] = []"
      by (simp add: DATE_RE_def)
    then have "ms ROW_RE (0, line) [] = []"
      by (simp add: ROW_RE_def)
    with assms show False by (simp add: re_match_def match_at_def)
  qed
  then show ?thesis by (rule month_3_initial)
qed

lemma strip_initial: "\<not> is_space c \<Longrightarrow> strip (c # cs) = c # rstrip cs"
  by (simp add: strip_def lstrip_def rstrip_def dropWhile_append)

lemma page_re_initial: "c \<noteq> CHR ''P'' \<Longrightarrow> re_match PAGE_RE (c # cs) = None"
  by (simp add: re_match_def match_at_def PAGE_RE_def startswith_def)

lemma barcode_re_initial: "c \<noteq> CHR ''*'' \<Longrightarrow> re_match BARCODE_RE (c # cs) = None"
  by (simp add: re_match_def match_at_def BARCODE_RE_def startswith_def)

lemma refcode_re_initial:
  "c \<noteq> CHR ''-'' \<Longrightarrow> \<not> is_digit c \<Longrightarrow> re_match REFCODE_RE (c # cs) = None"
  by (simp add: re_match_def match_at_def REFCODE_RE_def count_ok_def)

lemma month_initial_props:
  assumes "c \<in> set ''JFMASOND''"
  shows "\<not> is_space c \<and> \<not> is_digit c \<and> c \<noteq> CHR ''P'' \<and> c \<noteq> CHR ''*'' \<and>
         c \<noteq> CHR ''-'' \<and> c \<noteq> CHR ''C'' \<and> c \<noteq> CHR ''T'' \<and> c \<noteq> CHR ''Y''"
  using assms by (auto simp: is_space_def is_digit_def)

lemma initial_not_noise:
  assumes "c \<in> set ''JFMASOND''"
  shows "\<not> is_noise (c # cs)"
proof -
  note p = month_initial_props [OF assms]
  from p have s: "strip (c # cs) = c # rstrip cs" by (simp add: strip_initial)
  from p have a: "\<not> startswith (c # rstrip cs) CARD_NUMBER_PREFIX"
    and b: "\<not> startswith (c # rstrip cs) TOTAL_FOR_PREFIX"
    by (simp_all add: CARD_NUMBER_PREFIX_def TOTAL_FOR_PREFIX_def startswith_def)
  from p have r: "re_match PAGE_RE (c # rstrip cs) = None"
    "re_match BARCODE_RE (c # rstrip cs) = None"
    "re_match REFCODE_RE (c # rstrip cs) = None"
    by (simp_all add: page_re_initial barcode_re_initial refcode_re_initial)
  show ?thesis
    unfolding is_noise_def s Let_def using a b r by simp
qed

lemma initial_not_header:
  assumes "c \<in> set ''JFMASOND''"
  shows "\<not> startswith (c # cs) PAYMENTS_START \<and> \<not> startswith (c # cs) CHARGES_START \<and>
         \<not> startswith (c # cs) PAYMENTS_TOTAL_PREFIX"
  using month_initial_props [OF assms]
  by (simp add: PAYMENTS_START_def CHARGES_START_def PAYMENTS_TOTAL_PREFIX_def startswith_def)

text \<open>What the loop body does with a line that matches the row pattern.\<close>

lemma scan_line_row:
  assumes "re_match ROW_RE (norm_ws raw) = Some m"
  shows "scan_line P year st raw =
     (case normalize_date P (group m ''tdate'') year of
        Inl e \<Rightarrow> Inl e
      | Inr tdate \<Rightarrow>
          (case normalize_date P (group m ''pdate'') year of
             Inl e \<Rightarrow> Inl e
           | Inr pdate \<Rightarrow>
               if in_payments st then
                 Inr (st\<lparr>payments := payments st @
                        [\<lparr>p_trans_date = tdate, p_post_date = pdate,
                          p_description = group m ''body'',
                          p_amount = PyFloat (replace (group m ''amount'') '','' []),
                          p_source = ''CIBC''\<rparr>]\<rparr>)
               else if in_charges st then
                 Inr (st\<lparr>txns := txns st @
                        [\<lparr>t_trans_date = tdate, t_post_date = pdate,
                          t_description = snd (find_category_and_desc (group m ''body'')),
                          t_category = fst (find_category_and_desc (group m ''body'')),
                          t_amount = PyFloat (replace (group m ''amount'') '','' []),
                          t_location =
                            fst (extract_location
                                   (snd (find_category_and_desc (group m ''body'')))),
                          t_city =
                            fst (snd (extract_location
                                   (snd (find_category_and_desc (group m ''body''))))),
                          t_province =
                            snd (snd (extract_location
                                   (snd (find_category_and_desc (group m ''body''))))),
                          t_source = ''CIBC''\<rparr>]\<rparr>)
               else Inr st))"
proof -
  from row_initial [OF assms] obtain c cs where l: "norm_ws raw = c # cs"
    and c: "c \<in> set ''JFMASOND''" by blast
  note h = initial_not_header [OF c, of cs] and n = initial_not_noise [OF c, of cs]
  show ?thesis
    unfolding scan_line_def Let_def using h n assms
    by (simp add: l split: sum.splits)
qed

lemma scan_line_error:
  assumes "scan_line P year st raw = Inl e"
  shows "\<exists>m. re_match ROW_RE (norm_ws raw) = Some m \<and>
             (normalize_date P (group m ''tdate'') year = Inl e \<or>
              normalize_date P (group m ''pdate'') year = Inl e)"
  using assms unfolding scan_line_def Let_def
  by (auto split: if_splits option.splits sum.splits)

lemma scan_lines_error:
  "scan_lines P year st ls = Inl e \<Longrightarrow>
   \<exists>raw\<in>set ls. \<exists>m. re_match ROW_RE (norm_ws raw) = Some m \<and>
             (normalize_date P (group m ''tdate'') year = Inl e \<or>
              normalize_date P (group m ''pdate'') year = Inl e)"
proof (induction ls arbitrary: st)
  case Nil
  then show ?case by simp
next
  case (Cons l ls)
  show ?case
  proof (cases "scan_line P year st l")
    case (Inl e')
    with Cons.prems have "e' = e" by simp
    with Inl scan_line_error [of P year st l e] show ?thesis by auto
  next
    case (Inr st')
    with Cons.prems have "scan_lines P year st' ls = Inl e" by simp
    from Cons.IH [OF this] show ?thesis by auto
  qed
qed

lemma scan_lines_append:
  "scan_lines P year st (xs @ ys) =
     (case scan_lines P year st xs of
        Inl e \<Rightarrow> Inl e
      | Inr st' \<Rightarrow> scan_lines P year st' ys)"
  by (induction xs arbitrary: st) (auto split: sum.splits)

lemma scan_pages_lines:
  "scan_pages P year st pages = scan_lines P year st (concat (map splitlines pages))"
  by (induction pages arbitrary: st) (simp_all add: scan_lines_append split: sum.splits)

section \<open>Date errors\<close>

lemma contains_prefix: "contains (p @ s) p"
proof (cases p)
  case Nil
  then show ?thesis by (cases s) (simp_all add: startswith_def)
next
  case (Cons c cs)
  then show ?thesis by (simp add: startswith_def)
qed










section \<open>Section state\<close>

lemma startswith_take: "startswith l p \<Longrightarrow> n \<le> length p \<Longrightarrow> take n l = take n p"
  by (metis startswith_def min.absorb2 take_take min.commute)

lemma total_not_header:
  assumes "startswith l PAYMENTS_TOTAL_PREFIX"
  shows "\<not> startswith l PAYMENTS_START \<and> \<not> startswith l CHARGES_START"
proof -
  from assms have "take 1 l = ''T''"
    using startswith_take [of l PAYMENTS_TOTAL_PREFIX 1]
    by (simp add: PAYMENTS_TOTAL_PREFIX_def)
  moreover have "startswith l PAYMENTS_START \<Longrightarrow> take 1 l = ''Y''"
    using startswith_take [of l PAYMENTS_START 1] by (simp add: PAYMENTS_START_def)
  moreover have "startswith l CHARGES_START \<Longrightarrow> take 1 l = ''Y''"
    using startswith_take [of l CHARGES_START 1] by (simp add: CHARGES_START_def)
  ultimately show ?thesis by auto
qed

lemma charges_not_payments:
  assumes "startswith l CHARGES_START"
  shows "\<not> startswith l PAYMENTS_START"
proof -
  from assms have "take 6 l = ''Your n''"
    using startswith_take [of l CHARGES_START 6] by (simp add: CHARGES_START_def)
  moreover have "startswith l PAYMENTS_START \<Longrightarrow> take 6 l = ''Your p''"
    using startswith_take [of l PAYMENTS_START 6] by (simp add: PAYMENTS_START_def)
  ultimately show ?thesis by auto
qed

lemma scan_line_payments_header:
  "startswith (norm_ws raw) PAYMENTS_START \<Longrightarrow>
   scan_line P year st raw = Inr (st\<lparr>in_payments := True, in_charges := False\<rparr>)"
  by (simp add: scan_line_def)

lemma scan_line_charges_header:
  "startswith (norm_ws raw) CHARGES_START \<Longrightarrow>
   scan_line P year st raw = Inr (st\<lparr>in_charges := True, in_payments := False\<rparr>)"
  by (simp add: scan_line_def charges_not_payments)

lemma scan_line_total:
  "in_payments st \<Longrightarrow> startswith (norm_ws raw) PAYMENTS_TOTAL_PREFIX \<Longrightarrow>
   scan_line P year st raw = Inr (st\<lparr>in_payments := False\<rparr>)"
  by (simp add: scan_line_def total_not_header)

text \<open>Outside both sections a line that is no header leaves the state as it is.\<close>

lemma scan_line_outside:
  assumes "\<not> in_payments st" and "\<not> in_charges st"
    and "\<not> startswith (norm_ws raw) PAYMENTS_START"
    and "\<not> startswith (norm_ws raw) CHARGES_START"
    and "scan_line P year st raw = Inr st'"
  shows "st' = st"
  using assms unfolding scan_line_def Let_def
  by (auto split: if_splits option.splits sum.splits)

lemma scan_lines_outside:
  assumes "\<not> in_payments st" and "\<not> in_charges st"
    and "\<forall>l\<in>set ls. \<not> startswith (norm_ws l) PAYMENTS_START \<and>
                     \<not> startswith (norm_ws l) CHARGES_START"
    and "scan_lines P year st ls = Inr st'"
  shows "st' = st"
  using assms
proof (induction ls)
  case Nil
  then show ?case by simp
next
  case (Cons l ls)
  from Cons.prems(4) obtain st1 where s1: "scan_line P year st l = Inr st1"
    and s2: "scan_lines P year st1 ls = Inr st'"
    by (auto split: sum.splits)
  from Cons.prems(1,2,3) s1 have "st1 = st"
    by (intro scan_line_outside [of st l P year st1]) auto
  with s2 Cons show ?case by simp
qed

text \<open>
  Claim C2. A line that starts with the payments-total marker, met in the payments
  section, ends the section: both flags are off afterwards. From there on, as long
  as no line starts with the payments or the charges header, no line adds a record,
  whether or not it matches the row pattern: if the scan of the following lines
  returns, the state is the one right after the total line.
\<close>

theorem total_line_closes_payments:
  assumes "in_payments st" and "\<not> in_charges st"
    and "startswith (norm_ws total_line) PAYMENTS_TOTAL_PREFIX"
    and "\<forall>l\<in>set ls. \<not> startswith (norm_ws l) PAYMENTS_START \<and>
                     \<not> startswith (norm_ws l) CHARGES_START"
  shows "scan_line P year st total_line = Inr (st\<lparr>in_payments := False\<rparr>) \<and>
         \<not> in_payments (st\<lparr>in_payments := False\<rparr>) \<and>
         \<not> in_charges (st\<lparr>in_payments := False\<rparr>) \<and>
         (\<forall>st'. scan_lines P year st (total_line # ls) = Inr st' \<longrightarrow>
                st' = st\<lparr>in_payments := False\<rparr> \<and>
                payments st' = payments st \<and> txns st' = txns st)"
proof -
  have t: "scan_line P year st total_line = Inr (st\<lparr>in_payments := False\<rparr>)"
    using assms(1,3) by (rule scan_line_total)
  have "st' = st\<lparr>in_payments := False\<rparr>"
    if "scan_lines P year st (total_line # ls) = Inr st'" for st'
  proof -
    from that t have "scan_lines P year (st\<lparr>in_payments := False\<rparr>) ls = Inr st'"
      by simp
    then show ?thesis
      using assms(2,4) by (intro scan_lines_outside [of _ ls P year]) auto
  qed
  with t assms(2) show ?thesis by auto
qed

theorem total_line_closes_payments_witness:
  "in_payments \<lparr>in_payments = True, in_charges = False,
                 payments = [example_payment], txns = []\<rparr> \<and>
   \<not> in_charges \<lparr>in_payments = True, in_charges = False,
                   payments = [example_payment], txns = []\<rparr> \<and>
   startswith (norm_ws ''Total payments $1,250.00'') PAYMENTS_TOTAL_PREFIX \<and>
   re_match ROW_RE (norm_ws ''Jan 5 Jan 7 TIM HORTONS #123 OTTAWA ON Restaurants 12.34'')
     \<noteq> None \<and>
   scan_line (dtparse_ref 2025) 2025
     \<lparr>in_payments = True, in_charges = False, payments = [example_payment], txns = []\<rparr>
     ''Total payments $1,250.00'' =
   Inr (\<lparr>in_payments = True, in_charges = False, payments = [example_payment], txns = []\<rparr>
         \<lparr>in_payments := False\<rparr>) \<and>
   scan_lines (dtparse_ref 2025) 2025
     \<lparr>in_payments = True, in_charges = False, payments = [example_payment], txns = []\<rparr>
     [''Total payments $1,250.00'',
      ''Jan 5 Jan 7 TIM HORTONS #123 OTTAWA ON Restaurants 12.34'', ''Page 1 of 2''] =
   Inr \<lparr>in_payments = False, in_charges = False, payments = [example_payment], txns = []\<rparr>"
proof -
  let ?st = "\<lparr>in_payments = True, in_charges = False,
               payments = [example_payment], txns = []\<rparr>"
  let ?ls = "[''Jan 5 Jan 7 TIM HORTONS #123 OTTAWA ON Restaurants 12.34'', ''Page 1 of 2'']"
  have a: "startswith (norm_ws ''Total payments $1,250.00'') PAYMENTS_TOTAL_PREFIX"
    by code_simp
  have b: "\<forall>l\<in>set ?ls. \<not> startswith (norm_ws l) PAYMENTS_START \<and>
                     \<not> startswith (norm_ws l) CHARGES_START"
    by code_simp
  have c: "re_match ROW_RE
             (norm_ws ''Jan 5 Jan 7 TIM HORTONS #123 OTTAWA ON Restaurants 12.34'') \<noteq> None"
    by code_simp
  have d: "scan_lines (dtparse_ref 2025) 2025 ?st (''Total payments $1,250.00'' # ?ls) =
     Inr \<lparr>in_payments = False, in_charges = False, payments = [example_payment], txns = []\<rparr>"
    by code_simp
  have p: "in_payments ?st" by (simp only: scan_state.simps)
  have q: "\<not> in_charges ?st" by (simp only: scan_state.simps not_False_eq_True)
  note t = total_line_closes_payments [OF p q a b, of "dtparse_ref 2025" 2025, THEN conjunct1]
  show ?thesis
    by (intro conjI) (rule p q a c d t)+
qed

section \<open>A statement of two pages\<close>

lemma category_hit:
  assumes "cat \<in> set KNOWN_CATEGORIES" and "endswith (norm_ws body) cat"
  shows "find_category_and_desc body =
           (cat, rstrip (drop_right (length cat) (norm_ws body)))"
proof -
  have m: "cat \<in> set (sorted_longest_first KNOWN_CATEGORIES)"
    using assms(1) by (simp only: set_sorted_longest_first)
  have u: "\<forall>c\<in>set (sorted_longest_first KNOWN_CATEGORIES).
             endswith (norm_ws body) c \<longrightarrow> c = cat"
  proof (intro ballI impI)
    fix c
    assume "c \<in> set (sorted_longest_first KNOWN_CATEGORIES)"
      and e: "endswith (norm_ws body) c"
    then have "c \<in> set KNOWN_CATEGORIES" by (simp only: set_sorted_longest_first)
    then show "c = cat" using assms e by (blast intro: label_unique)
  qed
  show ?thesis
    unfolding find_category_and_desc_def using m assms(2) u by (rule find_category_hit)
qed

lemma scan_line_plain: "plain_line l \<Longrightarrow> scan_line P year st l = Inr st"
  by (simp add: scan_line_def plain_line_def Let_def)

lemma scan_lines_plain: "list_all plain_line ls \<Longrightarrow> scan_lines P year st ls = Inr st"
  by (induction ls) (simp_all add: scan_line_plain)

lemma scan_lines_plain_then:
  "list_all plain_line ls \<Longrightarrow>
   scan_lines P year st (ls @ l # rest) =
     (case scan_line P year st l of Inl e \<Rightarrow> Inl e | Inr st' \<Rightarrow> scan_lines P year st' rest)"
  by (simp add: scan_lines_append scan_lines_plain)

text \<open>
  Claim C1, as amended. Page 1 contains, in this order, a payments header line, a
  line that matches the row pattern and a payments-total line; page 2 contains a
  charges header line and then a line that matches the row pattern, whose body ends
  with a known category label and whose description gives a city. Every other line
  of the two pages is plain: no section header, no payments-total line and no match
  of the row pattern. If the four date tokens of the two rows normalise without
  error, \<open>_parse_pages_text\<close> returns exactly one payment and exactly one
  transaction; the transaction carries the label as category, the body without the
  label as description, and the location \<open>City PROV\<close>. The section state is kept
  from one page to the next: scanning the pages is scanning their lines in one
  sequence.
\<close>

theorem two_page_statement:
  assumes "splitlines p1 = a0 @ h # a1 @ r1 # a2 @ t # a3"
    and "splitlines p2 = b0 @ c # b1 @ r2 # b2"
    and "list_all plain_line (a0 @ a1 @ a2 @ a3 @ b0 @ b1 @ b2)"
    and "startswith (norm_ws h) PAYMENTS_START"
    and "re_match ROW_RE (norm_ws r1) = Some m1"
    and "startswith (norm_ws t) PAYMENTS_TOTAL_PREFIX"
    and "startswith (norm_ws c) CHARGES_START"
    and "re_match ROW_RE (norm_ws r2) = Some m2"
    and "cat \<in> set KNOWN_CATEGORIES"
    and "endswith (norm_ws (group m2 ''body'')) cat"
    and "desc = rstrip (drop_right (length cat) (norm_ws (group m2 ''body'')))"
    and "extract_location desc = (loc, cty, prov)" and "cty \<noteq> []"
    and "year = extract_year now [p1, p2]"
    and "normalize_date P (group m1 ''tdate'') year = Inr td1"
    and "normalize_date P (group m1 ''pdate'') year = Inr pd1"
    and "normalize_date P (group m2 ''tdate'') year = Inr td2"
    and "normalize_date P (group m2 ''pdate'') year = Inr pd2"
  shows "parse_pages_text P now [p1, p2] =
           Inr ([\<lparr>p_trans_date = td1, p_post_date = pd1,
                   p_description = clean_text (group m1 ''body''),
                   p_amount = PyFloat (replace (group m1 ''amount'') '','' []),
                   p_source = ''CIBC''\<rparr>],
                [\<lparr>t_trans_date = td2, t_post_date = pd2,
                   t_description = clean_text desc, t_category = cat,
                   t_amount = PyFloat (replace (group m2 ''amount'') '','' []),
                   t_location = loc, t_city = cty, t_province = prov,
                   t_source = ''CIBC''\<rparr>]) \<and>
         loc = cty @ '' '' @ prov \<and>
         scan_pages P year st [p1, p2] =
           scan_lines P year st (splitlines p1 @ splitlines p2)"
proof -
  let ?pay = "\<lparr>p_trans_date = td1, p_post_date = pd1,
                p_description = group m1 ''body'',
                p_amount = PyFloat (replace (group m1 ''amount'') '','' []),
                p_source = ''CIBC''\<rparr>"
  let ?txn = "\<lparr>t_trans_date = td2, t_post_date = pd2,
                t_description = desc, t_category = cat,
                t_amount = PyFloat (replace (group m2 ''amount'') '','' []),
                t_location = loc, t_city = cty, t_province = prov,
                t_source = ''CIBC''\<rparr>"
  let ?s1 = "\<lparr>in_payments = True, in_charges = False, payments = [], txns = []\<rparr>"
  let ?s2 = "\<lparr>in_payments = True, in_charges = False, payments = [?pay], txns = []\<rparr>"
  let ?s3 = "\<lparr>in_payments = False, in_charges = False, payments = [?pay], txns = []\<rparr>"
  let ?s4 = "\<lparr>in_payments = False, in_charges = True, payments = [?pay], txns = []\<rparr>"
  let ?s5 = "\<lparr>in_payments = False, in_charges = True, payments = [?pay], txns = [?txn]\<rparr>"
  from assms(3) have pl: "list_all plain_line a0" "list_all plain_line a1"
    "list_all plain_line a2" "list_all plain_line (a3 @ b0)" "list_all plain_line b1"
    "list_all plain_line b2" by simp_all
  have l1: "scan_line P year initial_state h = Inr ?s1"
    using assms(4) by (simp add: scan_line_payments_header initial_state_def)
  have l2: "scan_line P year ?s1 r1 = Inr ?s2"
    using assms(15,16) by (simp add: scan_line_row [OF assms(5)])
  have l3: "scan_line P year ?s2 t = Inr ?s3"
    using assms(6) by (simp add: scan_line_total)
  have l4: "scan_line P year ?s3 c = Inr ?s4"
    using assms(7) by (simp add: scan_line_charges_header)
  have cd: "find_category_and_desc (group m2 ''body'') = (cat, desc)"
    using category_hit [OF assms(9,10)] assms(11) by simp
  have l5: "scan_line P year ?s4 r2 = Inr ?s5"
    using assms(17,18) assms(12) cd by (simp add: scan_line_row [OF assms(8)])
  have k5: "scan_lines P year ?s4 (b1 @ r2 # b2) = Inr ?s5"
    by (simp only: scan_lines_plain_then [OF pl(5)] l5 sum.case scan_lines_plain [OF pl(6)])
  have k4: "scan_lines P year ?s3 ((a3 @ b0) @ c # b1 @ r2 # b2) = Inr ?s5"
    by (simp only: scan_lines_plain_then [OF pl(4)] l4 sum.case k5)
  have k3: "scan_lines P year ?s2 (a2 @ t # (a3 @ b0) @ c # b1 @ r2 # b2) = Inr ?s5"
    by (simp only: scan_lines_plain_then [OF pl(3)] l3 sum.case k4)
  have k2: "scan_lines P year ?s1 (a1 @ r1 # a2 @ t # (a3 @ b0) @ c # b1 @ r2 # b2) = Inr ?s5"
    by (simp only: scan_lines_plain_then [OF pl(2)] l2 sum.case k3)
  have k1: "scan_lines P year initial_state
              (a0 @ h # a1 @ r1 # a2 @ t # (a3 @ b0) @ c # b1 @ r2 # b2) = Inr ?s5"
    by (simp only: scan_lines_plain_then [OF pl(1)] l1 sum.case k2)
  have ls: "concat (map splitlines [p1, p2]) =
              a0 @ h # a1 @ r1 # a2 @ t # (a3 @ b0) @ c # b1 @ r2 # b2"
    by (simp add: assms(1,2))
  have sp: "scan_pages P year initial_state [p1, p2] = Inr ?s5"
    by (simp only: scan_pages_lines ls k1)
  have a: "parse_pages_text P now [p1, p2] =
           Inr ([?pay\<lparr>p_description := clean_text (p_description ?pay)\<rparr>],
                [?txn\<lparr>t_description := clean_text (t_description ?txn)\<rparr>])"
    using sp assms(14) by (simp add: parse_pages_text_def)
  have b: "loc = cty @ '' '' @ prov"
    using extract_location_shape [OF assms(12)] assms(13) by simp
  have "scan_pages P year st [p1, p2] =
           scan_lines P year st (splitlines p1 @ splitlines p2)"
    by (simp add: scan_pages_lines)
  with a b show ?thesis by simp
qed

text \<open>
  The claim as stated (every line that matches the row pattern) fails when a date
  token has the day 0: the row matches the pattern, the date can neither be parsed
  nor clamped, and the exception ends the processing of the statement.
\<close>

theorem two_page_statement_counterexample:
  "splitlines first_page_day_0 =
     [''Your payments'', ''Jan 0 Jan 4 PAYMENT THANK YOU 1,250.00'',
      ''Total payments $1,250.00''] \<and>
   splitlines page_two =
     [''Your new charges and credits'',
      ''Jan 5 Jan 7 TIM HORTONS #123 OTTAWA ON Restaurants 12.34''] \<and>
   startswith (norm_ws ''Your payments'') PAYMENTS_START \<and>
   re_match ROW_RE (norm_ws ''Jan 0 Jan 4 PAYMENT THANK YOU 1,250.00'') =
     Some \<lparr>m_start = 0, m_end = 38,
            m_groups = [(''tdate'', ''Jan 0''), (''pdate'', ''Jan 4''),
                        (''body'', ''PAYMENT THANK YOU''), (''amount'', ''1,250.00'')]\<rparr> \<and>
   startswith (norm_ws ''Total payments $1,250.00'') PAYMENTS_TOTAL_PREFIX \<and>
   startswith (norm_ws ''Your new charges and credits'') CHARGES_START \<and>
   re_match ROW_RE (norm_ws ''Jan 5 Jan 7 TIM HORTONS #123 OTTAWA ON Restaurants 12.34'') =
     Some charge_match \<and>
   endswith (norm_ws (group charge_match ''body'')) ''Restaurants'' \<and>
   extract_location ''TIM HORTONS #123 OTTAWA ON'' = (''Ottawa ON'', ''Ottawa'', ''ON'') \<and>
   parse_pages_text (dtparse_ref 2025) 2025 [first_page_day_0, page_two] =
     Inl (ValueError ''day is out of range for month: Jan 0 2025'')"
  by code_simp

theorem two_page_statement_witness:
  "splitlines first_page =
     [''Transactions from Dec 15 to Jan 14, 2025''] @ ''Your payments'' #
     [''Trans date Post date Description Amount($)''] @
     ''Jan 3 Jan 4 PAYMENT THANK YOU 1,250.00'' # [] @
     ''Total payments $1,250.00'' # [''Page 1 of 2''] \<and>
   splitlines second_page =
     [] @ ''Your new charges and credits'' # [''Card number 4500 XXXX XXXX 1234''] @
     ''Jan 5 Jan 7 TIM HORTONS #123 OTTAWA ON Restaurants 12.34'' #
     [''Total for 4500 XXXX XXXX 1234 $12.34'', ''Page 2 of 2''] \<and>
   list_all plain_line
     ([''Transactions from Dec 15 to Jan 14, 2025''] @
      [''Trans date Post date Description Amount($)''] @ [] @ [''Page 1 of 2''] @ [] @
      [''Card number 4500 XXXX XXXX 1234''] @
      [''Total for 4500 XXXX XXXX 1234 $12.34'', ''Page 2 of 2'']) \<and>
   startswith (norm_ws ''Your payments'') PAYMENTS_START \<and>
   re_match ROW_RE (norm_ws ''Jan 3 Jan 4 PAYMENT THANK YOU 1,250.00'') =
     Some payment_match \<and>
   startswith (norm_ws ''Total payments $1,250.00'') PAYMENTS_TOTAL_PREFIX \<and>
   startswith (norm_ws ''Your new charges and credits'') CHARGES_START \<and>
   re_match ROW_RE (norm_ws ''Jan 5 Jan 7 TIM HORTONS #123 OTTAWA ON Restaurants 12.34'') =
     Some charge_match \<and>
   ''Restaurants'' \<in> set KNOWN_CATEGORIES \<and>
   endswith (norm_ws (group charge_match ''body'')) ''Restaurants'' \<and>
   extract_location ''TIM HORTONS #123 OTTAWA ON'' = (''Ottawa ON'', ''Ottawa'', ''ON'') \<and>
   extract_year 2026 [first_page, second_page] = 2025 \<and>
   normalize_date (dtparse_ref 2026) (group payment_match ''tdate'') 2025 =
     Inr \<lparr>dt_year = 2025, dt_month = 1, dt_day = 3\<rparr> \<and>
   normalize_date (dtparse_ref 2026) (group payment_match ''pdate'') 2025 =
     Inr \<lparr>dt_year = 2025, dt_month = 1, dt_day = 4\<rparr> \<and>
   normalize_date (dtparse_ref 2026) (group charge_match ''tdate'') 2025 =
     Inr \<lparr>dt_year = 2025, dt_month = 1, dt_day = 5\<rparr> \<and>
   normalize_date (dtparse_ref 2026) (group charge_match ''pdate'') 2025 =
     Inr \<lparr>dt_year = 2025, dt_month = 1, dt_day = 7\<rparr> \<and>
   parse_pages_text (dtparse_ref 2026) 2026 [first_page, second_page] =
     Inr ([example_payment], [example_txn])"
proof -
  let ?a0 = "[''Transactions from Dec 15 to Jan 14, 2025'']"
  let ?a1 = "[''Trans date Post date Description Amount($)'']"
  let ?a3 = "[''Page 1 of 2'']"
  let ?b1 = "[''Card number 4500 XXXX XXXX 1234'']"
  let ?b2 = "[''Total for 4500 XXXX XXXX 1234 $12.34'', ''Page 2 of 2'']"
  have h1: "splitlines first_page =
     ?a0 @ ''Your payments'' # ?a1 @ ''Jan 3 Jan 4 PAYMENT THANK YOU 1,250.00'' # [] @
     ''Total payments $1,250.00'' # ?a3" by code_simp
  have h2: "splitlines second_page =
     [] @ ''Your new charges and credits'' # ?b1 @
     ''Jan 5 Jan 7 TIM HORTONS #123 OTTAWA ON Restaurants 12.34'' # ?b2" by code_simp
  have h0: "list_all plain_line (?a0 @ ?a1 @ [] @ ?a3 @ [] @ ?b1 @ ?b2)" by code_simp
  have h3: "startswith (norm_ws ''Your payments'') PAYMENTS_START" by code_simp
  have h4: "re_match ROW_RE (norm_ws ''Jan 3 Jan 4 PAYMENT THANK YOU 1,250.00'') =
     Some payment_match" by code_simp
  have h5: "startswith (norm_ws ''Total payments $1,250.00'') PAYMENTS_TOTAL_PREFIX"
    by code_simp
  have h6: "startswith (norm_ws ''Your new charges and credits'') CHARGES_START"
    by code_simp
  have h7: "re_match ROW_RE
      (norm_ws ''Jan 5 Jan 7 TIM HORTONS #123 OTTAWA ON Restaurants 12.34'') =
     Some charge_match" by code_simp
  have h8: "''Restaurants'' \<in> set KNOWN_CATEGORIES" by code_simp
  have h9: "endswith (norm_ws (group charge_match ''body'')) ''Restaurants''" by code_simp
  have h10: "''TIM HORTONS #123 OTTAWA ON'' =
     rstrip (drop_right (length ''Restaurants'') (norm_ws (group charge_match ''body'')))"
    by code_simp
  have h11: "extract_location ''TIM HORTONS #123 OTTAWA ON'' =
     (''Ottawa ON'', ''Ottawa'', ''ON'')" by code_simp
  have h12: "''Ottawa'' \<noteq> []" by simp
  have y: "extract_year 2026 [first_page, second_page] = 2025" by code_simp
  have h13: "2025 = extract_year 2026 [first_page, second_page]" by (simp only: y)
  have h14: "normalize_date (dtparse_ref 2026) (group payment_match ''tdate'') 2025 =
     Inr \<lparr>dt_year = 2025, dt_month = 1, dt_day = 3\<rparr>" by code_simp
  have h15: "normalize_date (dtparse_ref 2026) (group payment_match ''pdate'') 2025 =
     Inr \<lparr>dt_year = 2025, dt_month = 1, dt_day = 4\<rparr>" by code_simp
  have h16: "normalize_date (dtparse_ref 2026) (group charge_match ''tdate'') 2025 =
     Inr \<lparr>dt_year = 2025, dt_month = 1, dt_day = 5\<rparr>" by code_simp
  have h17: "normalize_date (dtparse_ref 2026) (group charge_match ''pdate'') 2025 =
     Inr \<lparr>dt_year = 2025, dt_month = 1, dt_day = 7\<rparr>" by code_simp
  have e1: "\<lparr>p_trans_date = \<lparr>dt_year = 2025, dt_month = 1, dt_day = 3\<rparr>,
              p_post_date = \<lparr>dt_year = 2025, dt_month = 1, dt_day = 4\<rparr>,
              p_description = clean_text (group payment_match ''body''),
              p_amount = PyFloat (replace (group payment_match ''amount'') '','' []),
              p_source = ''CIBC''\<rparr> = example_payment" by code_simp
  have e2: "\<lparr>t_trans_date = \<lparr>dt_year = 2025, dt_month = 1, dt_day = 5\<rparr>,
              t_post_date = \<lparr>dt_year = 2025, dt_month = 1, dt_day = 7\<rparr>,
              t_description = clean_text ''TIM HORTONS #123 OTTAWA ON'',
              t_category = ''Restaurants'',
              t_amount = PyFloat (replace (group charge_match ''amount'') '','' []),
              t_location = ''Ottawa ON'', t_city = ''Ottawa'', t_province = ''ON'',
              t_source = ''CIBC''\<rparr> = example_txn" by code_simp
  note r = two_page_statement
    [OF h1 h2 h0 h3 h4 h5 h6 h7 h8 h9 h10 h11 h12 h13 h14 h15 h16 h17, THEN conjunct1]
  have p: "parse_pages_text (dtparse_ref 2026) 2026 [first_page, second_page] =
     Inr ([example_payment], [example_txn])"
    using r by (simp only: e1 e2)
  show ?thesis
    by (intro conjI) (rule h1 h2 h0 h3 h4 h5 h6 h7 h8 h9 h11 y h14 h15 h16 h17 p)+
qed

section \<open>Date normalisation\<close>

lemma split_acc_word:
  "\<forall>c\<in>set w. \<not> is_space c \<Longrightarrow> split_acc cur (w @ s) = split_acc (cur @ w) s"
  by (induction w arbitrary: cur) auto

lemma split_acc_word_end:
  "\<forall>c\<in>set w. \<not> is_space c \<Longrightarrow> cur @ w \<noteq> [] \<Longrightarrow> split_acc cur w = [cur @ w]"
  using split_acc_word [of w cur "[]"] by simp

lemma split_acc_blank:
  "cur \<noteq> [] \<Longrightarrow> split_acc cur (CHR '' '' # s) = cur # split_acc [] s"
  by (simp add: is_space_def)

lemma split_two_words:
  assumes "\<forall>c\<in>set a. \<not> is_space c" "a \<noteq> []" "\<forall>c\<in>set b. \<not> is_space c" "b \<noteq> []"
  shows "split (a @ '' '' @ b) = [a, b]"
proof -
  have "split (a @ '' '' @ b) = split_acc a (CHR '' '' # b)"
    using split_acc_word [OF assms(1), of "[]"] by (simp add: split_def)
  also have "\<dots> = a # split_acc [] b" using assms(2) by (rule split_acc_blank)
  also have "split_acc [] b = [b]" using split_acc_word_end [OF assms(3), of "[]"] assms(4) by simp
  finally show ?thesis .
qed

lemma split_three_words:
  assumes "\<forall>c\<in>set a. \<not> is_space c" "a \<noteq> []" "\<forall>c\<in>set b. \<not> is_space c" "b \<noteq> []"
    and "\<forall>c\<in>set y. \<not> is_space c" "y \<noteq> []"
  shows "split ((a @ '' '' @ b) @ '' '' @ y) = [a, b, y]"
proof -
  have "split ((a @ '' '' @ b) @ '' '' @ y) = split_acc a (CHR '' '' # b @ '' '' @ y)"
    using split_acc_word [OF assms(1), of "[]"] by (simp add: split_def)
  also have "\<dots> = a # split_acc [] (b @ '' '' @ y)" using assms(2) by (rule split_acc_blank)
  also have "split_acc [] (b @ '' '' @ y) = split_acc b (CHR '' '' # y)"
    using split_acc_word [OF assms(3), of "[]"] by simp
  also have "\<dots> = b # split_acc [] y" using assms(4) by (rule split_acc_blank)
  also have "split_acc [] y = [y]" using split_acc_word_end [OF assms(5), of "[]"] assms(6) by simp
  finally show ?thesis .
qed

lemma digit_not_space: "is_digit c \<Longrightarrow> \<not> is_space c"
  by (auto simp: is_digit_def is_space_def)

lemma digit_table:
  "\<forall>k\<in>set [0..<10]. is_digit (''0123456789'' ! k) \<and> digit_val (''0123456789'' ! k) = k"
  by code_simp

lemma digit_char_props:
  "is_digit (digit_char n) \<and> digit_val (digit_char n) = n mod 10"
proof -
  have "n mod 10 \<in> set [0..<10]" by simp
  with digit_table show ?thesis unfolding digit_char_def by blast
qed

lemma digits_val_snoc: "digits_val (s @ [c]) = 10 * digits_val s + digit_val c"
  by (simp add: digits_val_def)

lemma str_nat_props:
  "list_all is_digit (str_nat n) \<and> str_nat n \<noteq> [] \<and> digits_val (str_nat n) = n"
proof (induction n rule: str_nat.induct)
  case (1 n)
  show ?case
  proof (cases "n < 10")
    case True
    then have "str_nat n = [digit_char n]" by (simp add: str_nat.simps)
    with True show ?thesis
      using digit_char_props [of n] by (simp add: digits_val_def)
  next
    case False
    then have s: "str_nat n = str_nat (n div 10) @ [digit_char n]"
      by (simp add: str_nat.simps)
    from False 1 have ih: "list_all is_digit (str_nat (n div 10)) \<and>
        digits_val (str_nat (n div 10)) = n div 10" by simp
    show ?thesis
      using ih digit_char_props [of n] by (simp add: s digits_val_snoc)
  qed
qed

lemma str_nat_length:
  assumes "100 \<le> n" and "n \<le> 9999"
  shows "length (str_nat n) \<in> {3, 4}"
proof -
  have one: "\<And>k. k < 10 \<Longrightarrow> length (str_nat k) = 1" by (simp add: str_nat.simps)
  have two: "\<And>k. 10 \<le> k \<Longrightarrow> k < 100 \<Longrightarrow> length (str_nat k) = 2"
  proof -
    fix k :: nat assume "10 \<le> k" "k < 100"
    then have "k div 10 < 10" by simp
    with \<open>10 \<le> k\<close> show "length (str_nat k) = 2"
      using one [of "k div 10"] by (subst str_nat.simps) simp
  qed
  have three: "\<And>k. 100 \<le> k \<Longrightarrow> k < 1000 \<Longrightarrow> length (str_nat k) = 3"
  proof -
    fix k :: nat assume "100 \<le> k" "k < 1000"
    then have "10 \<le> k div 10" "k div 10 < 100" by simp_all
    with \<open>100 \<le> k\<close> show "length (str_nat k) = 3"
      using two [of "k div 10"] by (subst str_nat.simps) simp
  qed
  show ?thesis
  proof (cases "n < 1000")
    case True
    with assms three show ?thesis by simp
  next
    case False
    then have "100 \<le> n div 10" "n div 10 < 1000" using assms by simp_all
    then have "length (str_nat (n div 10)) = 3" by (rule three)
    with False show ?thesis by (subst str_nat.simps) simp
  qed
qed

lemma month_table:
  "\<forall>k\<in>set [0..<12].
     info_month (MONTH_3_NAMES ! k) = Some (Suc k) \<and>
     strptime_b (MONTH_3_NAMES ! k) = Some (Suc k) \<and>
     MONTH_3_NAMES ! k \<noteq> [] \<and>
     list_all (\<lambda>c. \<not> is_space c) (MONTH_3_NAMES ! k) \<and>
     1 \<le> mdays ! Suc k"
  by code_simp

lemma month_props:
  assumes "k < 12"
  shows "info_month (MONTH_3_NAMES ! k) = Some (Suc k)"
    and "strptime_b (MONTH_3_NAMES ! k) = Some (Suc k)"
    and "MONTH_3_NAMES ! k \<noteq> []"
    and "\<forall>c\<in>set (MONTH_3_NAMES ! k). \<not> is_space c"
    and "1 \<le> monthrange y (Suc k)"
proof -
  from assms have "k \<in> set [0..<12]" by simp
  with month_table have t: "info_month (MONTH_3_NAMES ! k) = Some (Suc k) \<and>
     strptime_b (MONTH_3_NAMES ! k) = Some (Suc k) \<and>
     MONTH_3_NAMES ! k \<noteq> [] \<and>
     list_all (\<lambda>c. \<not> is_space c) (MONTH_3_NAMES ! k) \<and>
     1 \<le> mdays ! Suc k" by blast
  from t show "info_month (MONTH_3_NAMES ! k) = Some (Suc k)" by blast
  from t show "strptime_b (MONTH_3_NAMES ! k) = Some (Suc k)" by blast
  from t show "MONTH_3_NAMES ! k \<noteq> []" by blast
  from t show "\<forall>c\<in>set (MONTH_3_NAMES ! k). \<not> is_space c" by (simp add: list_all_iff)
  from t show "1 \<le> monthrange y (Suc k)" by (simp add: monthrange_def)
qed

lemma underscores_ok_digits: "d \<noteq> [] \<Longrightarrow> list_all is_digit d \<Longrightarrow> underscores_ok d"
  by (induction d rule: underscores_ok.induct) auto

lemma digit_not_sign: "is_digit c \<Longrightarrow> c \<noteq> CHR ''-'' \<and> c \<noteq> CHR ''+''"
  by (auto simp: is_digit_def)

lemma py_int_digits:
  assumes "d \<noteq> []" and "list_all is_digit d"
  shows "py_int d = Some (int (digits_val d))"
proof -
  from assms(1) obtain c cs where d: "d = c # cs" by (cases d) auto
  with assms(2) have c: "is_digit c" by simp
  have f: "filter is_digit d = d" using assms(2) by (simp add: list_all_iff)
  have "py_int_unsigned d = Some (int (digits_val d))"
    using c underscores_ok_digits [OF assms] f
    by (simp add: py_int_unsigned_def d)
  then show ?thesis
    using digit_not_sign [OF c] by (simp add: py_int_def d)
qed

lemma day_error_is_day_error:
  "contains (''day is out of range for month'' @ '': '' @ t) ''day is out of range for month''"
  by (rule contains_prefix)

lemma str_int_year:
  assumes "100 < year" and "year \<le> 9999"
  shows "list_all is_digit (str_int year)" and "str_int year \<noteq> []"
    and "length (str_int year) \<in> {3, 4}"
    and "int (digits_val (str_int year)) = year"
proof -
  from assms have s: "str_int year = str_nat (nat year)" by (simp add: str_int_def)
  show "list_all is_digit (str_int year)" and "str_int year \<noteq> []"
    using str_nat_props [of "nat year"] by (simp_all add: s)
  show "length (str_int year) \<in> {3, 4}"
    unfolding s using assms by (intro str_nat_length) auto
  show "int (digits_val (str_int year)) = year"
    using str_nat_props [of "nat year"] assms by (simp add: s)
qed

text \<open>The reference for the date library on a month name, a day and a year above 100.\<close>

lemma dtparse_month_day_year:
  assumes "k < 12" and "d \<noteq> []" and "length d \<le> 2" and "list_all is_digit d"
    and "100 < year" and "year \<le> 9999"
  shows "dtparse_ref now ((MONTH_3_NAMES ! k @ '' '' @ d) @ '' '' @ str_int year) =
     (case mk_datetime year (Suc k) (int (digits_val d)) of
        Inl msg \<Rightarrow>
          Inl (ValueError
                 (msg @ '': '' @ (MONTH_3_NAMES ! k @ '' '' @ d) @ '' '' @ str_int year))
      | Inr dt \<Rightarrow> Inr dt)"
proof -
  note y = str_int_year [OF assms(5,6)]
  have dn: "\<forall>c\<in>set d. \<not> is_space c"
    using assms(4) by (auto simp: list_all_iff digit_not_space)
  have yn: "\<forall>c\<in>set (str_int year). \<not> is_space c"
    using y(1) by (auto simp: list_all_iff digit_not_space)
  have sp: "split ((MONTH_3_NAMES ! k @ '' '' @ d) @ '' '' @ str_int year) =
              [MONTH_3_NAMES ! k, d, str_int year]"
    using month_props(4) [OF assms(1)] month_props(3) [OF assms(1)] dn assms(2) yn y(2)
    by (rule split_three_words)
  have "0 < length d" using assms(2) by simp
  with assms(3) have "length d = 1 \<or> length d = 2" by linarith
  then have ld: "length d \<in> {1, 2}" by blast
  show ?thesis
    unfolding dtparse_ref_def sp
    using month_props(1) [OF assms(1)] assms(4,5) ld y(1,3,4)
    by (simp add: Let_def)
qed


text \<open>
  With the reference for the date library, and for a year from 101 to 9999, which
  the library reads as written, \<open>_normalize_date\<close> does what its documentation
  says: a valid day gives that date in that year, and a day beyond the end of the
  month gives the last day of that month in that year.
\<close>

lemma normalize_date_year_as_written:
  assumes "k < 12" and "d \<noteq> []" and "length d \<le> 2" and "list_all is_digit d"
    and "100 < year" and "year \<le> 9999"
  shows "(1 \<le> digits_val d \<and> digits_val d \<le> monthrange year (Suc k) \<longrightarrow>
            normalize_date (dtparse_ref now) (MONTH_3_NAMES ! k @ '' '' @ d) year =
              Inr \<lparr>dt_year = year, dt_month = Suc k, dt_day = digits_val d\<rparr>) \<and>
         (monthrange year (Suc k) < digits_val d \<longrightarrow>
            normalize_date (dtparse_ref now) (MONTH_3_NAMES ! k @ '' '' @ d) year =
              Inr \<lparr>dt_year = year, dt_month = Suc k, dt_day = monthrange year (Suc k)\<rparr>)"
proof -
  let ?mon = "MONTH_3_NAMES ! k"
  let ?t = "(?mon @ '' '' @ d) @ '' '' @ str_int year"
  note p = dtparse_month_day_year [OF assms, of now]
  have valid: "normalize_date (dtparse_ref now) (?mon @ '' '' @ d) year =
        Inr \<lparr>dt_year = year, dt_month = Suc k, dt_day = digits_val d\<rparr>"
    if v: "1 \<le> digits_val d \<and> digits_val d \<le> monthrange year (Suc k)"
  proof -
    from v have "mk_datetime year (Suc k) (int (digits_val d)) =
        Inr \<lparr>dt_year = year, dt_month = Suc k, dt_day = digits_val d\<rparr>"
      using assms(5,6) by (simp add: mk_datetime_def)
    with p have "dtparse_ref now ?t =
        Inr \<lparr>dt_year = year, dt_month = Suc k, dt_day = digits_val d\<rparr>" by simp
    then show ?thesis
      by (simp add: normalize_date_def)
  qed
  have clamp: "normalize_date (dtparse_ref now) (?mon @ '' '' @ d) year =
        Inr \<lparr>dt_year = year, dt_month = Suc k, dt_day = monthrange year (Suc k)\<rparr>"
    if v: "monthrange year (Suc k) < digits_val d"
  proof -
    from v have "mk_datetime year (Suc k) (int (digits_val d)) =
        Inl ''day is out of range for month''"
      using assms(5,6) by (simp add: mk_datetime_def)
    with p have e: "dtparse_ref now ?t =
        Inl (ValueError (''day is out of range for month'' @ '': '' @ ?t))"
      by simp
    have dn: "\<forall>c\<in>set d. \<not> is_space c"
      using assms(4) by (auto simp: list_all_iff digit_not_space)
    have sp: "split (?mon @ '' '' @ d) = [?mon, d]"
      using month_props(4) [OF assms(1)] month_props(3) [OF assms(1)] dn assms(2)
      by (rule split_two_words)
    have mn: "min (int (digits_val d)) (int (monthrange year (Suc k))) =
              int (monthrange year (Suc k))"
      using v by simp
    have mk: "mk_datetime year (Suc k) (int (monthrange year (Suc k))) =
        Inr \<lparr>dt_year = year, dt_month = Suc k, dt_day = monthrange year (Suc k)\<rparr>"
      using assms(5,6) month_props(5) [OF assms(1), of year] by (simp add: mk_datetime_def)
    show ?thesis
      unfolding normalize_date_def e
      using day_error_is_day_error [of ?t] sp month_props(2) [OF assms(1)]
        py_int_digits [OF assms(2,4)] mn mk
      by (simp add: Let_def del: contains.simps)
  qed
  from valid clamp show ?thesis by blast
qed

text \<open>
  Claim C4. The claim is what the documentation of \<open>_normalize_date\<close> says
  (\<open>Parse 'Mon DD' with provided year\<close>), and the code misses it for a year below
  100. The token \<open>Jan 5\<close> with the year 25, where the day 5 is a valid day of
  January, comes back in the year 2025 (processed in 2026): the text
  \<open>Jan 5 25\<close> goes to the date library, which reads \<open>25\<close> as a year of the current
  century. The clamping path of the same function does keep the year it was given:
  \<open>Feb 29\<close> with the year 25 gives the day 28 of February of the year 25.
\<close>

theorem normalize_date_two_digit_year:
  "mk_datetime 25 1 5 = Inr \<lparr>dt_year = 25, dt_month = 1, dt_day = 5\<rparr> \<and>
   normalize_date (dtparse_ref 2026) ''Jan 5'' 25 =
     Inr \<lparr>dt_year = 2025, dt_month = 1, dt_day = 5\<rparr> \<and>
   monthrange 25 2 = 28 \<and>
   normalize_date (dtparse_ref 2026) ''Feb 29'' 25 =
     Inr \<lparr>dt_year = 25, dt_month = 2, dt_day = 28\<rparr>"
  by code_simp

section \<open>The row grammar\<close>

subsection \<open>The matcher and the meaning of patterns\<close>

lemma rep_ends_set:
  "set (rep_ends p s k) = {(k + n, drop n s) | n. n \<le> length s \<and> list_all p (take n s)}"
proof (induction s arbitrary: k)
  case Nil
  then show ?case by auto
next
  case (Cons c cs)
  have "{(k + n, drop n (c # cs)) | n. n \<le> length (c # cs) \<and> list_all p (take n (c # cs))} =
        insert (k, c # cs)
          {(k + Suc n, drop n cs) | n. n \<le> length cs \<and> p c \<and> list_all p (take n cs)}"
    (is "?A = ?B")
  proof (intro set_eqI iffI)
    fix x assume "x \<in> ?A"
    then obtain n where n: "x = (k + n, drop n (c # cs))" "n \<le> length (c # cs)"
      "list_all p (take n (c # cs))" by blast
    show "x \<in> ?B"
    proof (cases n)
      case 0
      with n show ?thesis by simp
    next
      case (Suc n')
      with n show ?thesis by auto
    qed
  next
    fix x assume "x \<in> ?B"
    then consider "x = (k, c # cs)"
      | n where "x = (k + Suc n, drop n cs)" "n \<le> length cs" "p c" "list_all p (take n cs)"
      by blast
    then show "x \<in> ?A"
    proof cases
      case 1
      then have "x = (k + 0, drop 0 (c # cs)) \<and> 0 \<le> length (c # cs) \<and>
                 list_all p (take 0 (c # cs))" by simp
      then show ?thesis by blast
    next
      case 2
      then have "x = (k + Suc n, drop (Suc n) (c # cs)) \<and> Suc n \<le> length (c # cs) \<and>
                 list_all p (take (Suc n) (c # cs))" by simp
      then show ?thesis by blast
    qed
  qed
  moreover have "set (rep_ends p (c # cs) k) =
        insert (k, c # cs)
          {(k + Suc n, drop n cs) | n. n \<le> length cs \<and> p c \<and> list_all p (take n cs)}"
    by (auto simp: Cons.IH)
  ultimately show ?case by simp
qed

lemma prefix_take: "startswith s u \<longleftrightarrow> (\<exists>r. s = u @ r)"
  by (metis append_eq_conv_conj append_take_drop_id startswith_def)

lemma ms_Rep_iff:
  "(st', g') \<in> set (ms (Rep p lo hi gr) (i, s) g) \<longleftrightarrow>
   (\<exists>u. startswith s u \<and> st' = (i + length u, drop (length u) s) \<and>
        list_all p u \<and> count_ok lo hi (length u) \<and> g' = g)"
proof
  assume "(st', g') \<in> set (ms (Rep p lo hi gr) (i, s) g)"
  then obtain e where e: "e \<in> set (rep_ends p s 0)" "count_ok lo hi (fst e)"
    "st' = (i + fst e, snd e)" "g' = g"
    by (auto simp: Let_def split: if_splits)
  then obtain n where n: "e = (n, drop n s)" "n \<le> length s" "list_all p (take n s)"
    by (auto simp: rep_ends_set)
  let ?u = "take n s"
  have "startswith s ?u" using n(2) by (simp add: startswith_def min.absorb2)
  moreover have "length ?u = n" using n(2) by simp
  ultimately show "\<exists>u. startswith s u \<and> st' = (i + length u, drop (length u) s) \<and>
        list_all p u \<and> count_ok lo hi (length u) \<and> g' = g"
    using e n by (intro exI [of _ ?u]) simp
next
  assume "\<exists>u. startswith s u \<and> st' = (i + length u, drop (length u) s) \<and>
        list_all p u \<and> count_ok lo hi (length u) \<and> g' = g"
  then obtain u where u: "startswith s u" "st' = (i + length u, drop (length u) s)"
    "list_all p u" "count_ok lo hi (length u)" "g' = g" by blast
  from u(1) have t: "take (length u) s = u" and l: "length u \<le> length s"
    by (auto simp: prefix_take)
  have "(length u, drop (length u) s) \<in> set (rep_ends p s 0)"
    unfolding rep_ends_set using t l u(3) by auto
  then have "(length u, drop (length u) s) \<in>
      set (filter (\<lambda>e. count_ok lo hi (fst e)) (rep_ends p s 0))"
    using u(4) by simp
  then show "(st', g') \<in> set (ms (Rep p lo hi gr) (i, s) g)"
    using u(2,5) by (force simp: Let_def)
qed

lemma ms_iff:
  "(st', g') \<in> set (ms r (i, s) g) \<longleftrightarrow>
   (\<exists>u. startswith s u \<and> st' = (i + length u, drop (length u) s) \<and> rxm r i s g u g')"
proof (induction r arbitrary: i s g st' g')
  case (Lit l)
  show ?case by (auto simp: startswith_def)
next
  case (Cls p)
  show ?case
  proof (cases s)
    case Nil
    then show ?thesis by (auto simp: startswith_def)
  next
    case (Cons c cs)
    have l: "(st', g') \<in> set (ms (Cls p) (i, s) g) \<longleftrightarrow>
             (p c \<and> st' = (Suc i, cs) \<and> g' = g)"
      by (auto simp: Cons)
    have r: "(\<exists>u. startswith s u \<and> st' = (i + length u, drop (length u) s) \<and>
                  rxm (Cls p) i s g u g') \<longleftrightarrow> (p c \<and> st' = (Suc i, cs) \<and> g' = g)"
    proof
      assume "\<exists>u. startswith s u \<and> st' = (i + length u, drop (length u) s) \<and>
                  rxm (Cls p) i s g u g'"
      then obtain u c' where "startswith s u" "st' = (i + length u, drop (length u) s)"
        "u = [c']" "p c'" "g' = g" by auto
      then show "p c \<and> st' = (Suc i, cs) \<and> g' = g"
        by (simp add: Cons startswith_def)
    next
      assume a: "p c \<and> st' = (Suc i, cs) \<and> g' = g"
      then have "startswith s [c] \<and> st' = (i + length [c], drop (length [c]) s) \<and>
                 rxm (Cls p) i s g [c] g'"
        by (simp add: Cons startswith_def)
      then show "\<exists>u. startswith s u \<and> st' = (i + length u, drop (length u) s) \<and>
                  rxm (Cls p) i s g u g'" by blast
    qed
    from l r show ?thesis by blast
  qed
next
  case (Rep p lo hi gr)
  show ?case by (simp only: ms_Rep_iff rxm.simps)
next
  case (Seq a b)
  show ?case
  proof
    assume "(st', g') \<in> set (ms (Seq a b) (i, s) g)"
    then obtain st1 g1 where a: "(st1, g1) \<in> set (ms a (i, s) g)"
      and b: "(st', g') \<in> set (ms b st1 g1)" by auto
    from a Seq.IH(1) obtain u1 where u1: "startswith s u1"
      "st1 = (i + length u1, drop (length u1) s)" "rxm a i s g u1 g1" by blast
    from b u1(2) Seq.IH(2) obtain u2 where u2: "startswith (drop (length u1) s) u2"
      "st' = (i + length u1 + length u2, drop (length u2) (drop (length u1) s))"
      "rxm b (i + length u1) (drop (length u1) s) g1 u2 g'" by blast
    from u1(1) u2(1) have "startswith s (u1 @ u2)"
      by (auto simp: prefix_take)
    moreover have "st' = (i + length (u1 @ u2), drop (length (u1 @ u2)) s)"
      using u2(2) by (simp add: add.commute)
    moreover have "rxm (Seq a b) i s g (u1 @ u2) g'"
      using u1(3) u2(3) by auto
    ultimately show "\<exists>u. startswith s u \<and> st' = (i + length u, drop (length u) s) \<and>
        rxm (Seq a b) i s g u g'" by blast
  next
    assume "\<exists>u. startswith s u \<and> st' = (i + length u, drop (length u) s) \<and>
        rxm (Seq a b) i s g u g'"
    then obtain u u1 u2 g1 where u: "startswith s u"
      "st' = (i + length u, drop (length u) s)" "u = u1 @ u2" "rxm a i s g u1 g1"
      "rxm b (i + length u1) (drop (length u1) s) g1 u2 g'" by auto
    from u(1,3) have p1: "startswith s u1" and p2: "startswith (drop (length u1) s) u2"
      by (auto simp: prefix_take)
    from p1 u(4) Seq.IH(1) have a: "((i + length u1, drop (length u1) s), g1) \<in>
        set (ms a (i, s) g)" by blast
    have "st' = (i + length u1 + length u2, drop (length u2) (drop (length u1) s))"
      using u(2,3) by (simp add: add.commute)
    with p2 u(5) Seq.IH(2) have "(st', g') \<in>
        set (ms b (i + length u1, drop (length u1) s) g1)" by blast
    with a show "(st', g') \<in> set (ms (Seq a b) (i, s) g)" by force
  qed
next
  case (Alt a b)
  show ?case using Alt.IH by auto
next
  case (Grp n r)
  show ?case
  proof
    assume "(st', g') \<in> set (ms (Grp n r) (i, s) g)"
    then obtain g1 where r: "(st', g1) \<in> set (ms r (i, s) g)"
      and g': "g' = g1 @ [(n, take (fst st' - i) s)]" by auto
    from r Grp.IH obtain u where u: "startswith s u"
      "st' = (i + length u, drop (length u) s)" "rxm r i s g u g1" by blast
    from u(1,2) have "take (fst st' - i) s = u" by (simp add: startswith_def)
    with g' u show "\<exists>u. startswith s u \<and> st' = (i + length u, drop (length u) s) \<and>
        rxm (Grp n r) i s g u g'" by auto
  next
    assume "\<exists>u. startswith s u \<and> st' = (i + length u, drop (length u) s) \<and>
        rxm (Grp n r) i s g u g'"
    then obtain u g1 where u: "startswith s u"
      "st' = (i + length u, drop (length u) s)" "rxm r i s g u g1" "g' = g1 @ [(n, u)]"
      by auto
    from u(1,2,3) Grp.IH have r: "(st', g1) \<in> set (ms r (i, s) g)" by blast
    from u(1,2) have "take (fst st' - i) s = u" by (simp add: startswith_def)
    with r u(4) show "(st', g') \<in> set (ms (Grp n r) (i, s) g)" by force
  qed
next
  case Bol
  show ?case by (auto simp: startswith_def)
next
  case Eol
  show ?case by (auto simp: startswith_def)
next
  case (Ahead p)
  show ?case by (cases s) (auto simp: startswith_def)
qed

lemma re_match_Some:
  assumes "re_match r s = Some m"
  shows "\<exists>u. startswith s u \<and> m_end m = length u \<and> rxm r 0 s [] u (m_groups m)"
proof -
  from assms obtain res rest where l: "ms r (0, s) [] = res # rest"
    and m: "m = \<lparr>m_start = 0, m_end = fst (fst res), m_groups = snd res\<rparr>"
    by (auto simp: re_match_def match_at_def split: list.splits)
  from l have "(fst res, snd res) \<in> set (ms r (0, s) [])" by simp
  then obtain u where "startswith s u" "fst res = (0 + length u, drop (length u) s)"
    "rxm r 0 s [] u (snd res)" using ms_iff by blast
  with m show ?thesis by auto
qed

lemma re_match_exists:
  "re_match r s \<noteq> None \<longleftrightarrow> (\<exists>u g'. startswith s u \<and> rxm r 0 s [] u g')"
proof
  assume "re_match r s \<noteq> None"
  then obtain m where "re_match r s = Some m" by auto
  from re_match_Some [OF this] show "\<exists>u g'. startswith s u \<and> rxm r 0 s [] u g'" by blast
next
  assume "\<exists>u g'. startswith s u \<and> rxm r 0 s [] u g'"
  then obtain u g' where "startswith s u" "rxm r 0 s [] u g'" by blast
  then have "((0 + length u, drop (length u) s), g') \<in> set (ms r (0, s) [])"
    using ms_iff by blast
  then have "ms r (0, s) [] \<noteq> []" by auto
  then show "re_match r s \<noteq> None"
    by (auto simp: re_match_def match_at_def split: list.splits)
qed

lemma rxm_alts:
  "ls \<noteq> [] \<Longrightarrow> rxm (alts ls) i s g u g' \<longleftrightarrow> (u \<in> set ls \<and> g' = g)"
  by (induction ls rule: alts.induct) auto

lemma blank_run_iff: "blank_run w \<longleftrightarrow> (list_all is_space w \<and> 1 \<le> length w)"
  by (cases w) (auto simp: blank_run_def)

lemma rxm_blanks:
  "rxm (Rep is_space 1 None True) i s g u g' \<longleftrightarrow> (blank_run u \<and> g' = g)"
  by (auto simp: blank_run_iff count_ok_def)

lemma rxm_body:
  "rxm (Rep any_char 1 None False) i s g u g' \<longleftrightarrow>
   ((u \<noteq> [] \<and> CHR 0x0A \<notin> set u) \<and> g' = g)"
  by (cases u) (auto simp: count_ok_def any_char_def list_all_iff)

lemma month_names_length: "mon \<in> set MONTH_3_NAMES \<Longrightarrow> length mon = 3"
  by (auto simp: MONTH_3_NAMES_def)

lemma takeWhile_run:
  assumes "list_all P ws" and "d \<noteq> []" and "\<not> P (hd d)"
  shows "takeWhile P (ws @ d) = ws" and "dropWhile P (ws @ d) = d"
proof -
  from assms(2) obtain c cs where d: "d = c # cs" by (cases d) auto
  with assms(3) have c: "\<not> P c" by simp
  from assms(1) have a: "\<forall>x\<in>set ws. P x" by (simp add: list_all_iff)
  show "takeWhile P (ws @ d) = ws"
    using a c by (simp add: d takeWhile_append2)
  show "dropWhile P (ws @ d) = d"
    using a c by (simp add: d dropWhile_append2)
qed

lemma date_text_iff:
  "date_text t \<longleftrightarrow>
   (\<exists>mon ws day. t = mon @ ws @ day \<and> mon \<in> set MONTH_3_NAMES \<and> blank_run ws \<and>
      list_all is_digit day \<and> 1 \<le> length day \<and> length day \<le> 2)"
proof
  assume d: "date_text t"
  let ?mon = "take 3 t"
  let ?ws = "takeWhile is_space (drop 3 t)"
  let ?day = "dropWhile is_space (drop 3 t)"
  have "t = ?mon @ ?ws @ ?day" by simp
  moreover have "?mon \<in> set MONTH_3_NAMES" using d by (simp add: date_text_def Let_def)
  moreover have "blank_run ?ws"
    using d by (auto simp: date_text_def Let_def blank_run_def list_all_iff dest: set_takeWhileD)
  moreover have "list_all is_digit ?day \<and> 1 \<le> length ?day \<and> length ?day \<le> 2"
    using d by (cases ?day) (auto simp: date_text_def Let_def)
  ultimately show "\<exists>mon ws day. t = mon @ ws @ day \<and> mon \<in> set MONTH_3_NAMES \<and>
      blank_run ws \<and> list_all is_digit day \<and> 1 \<le> length day \<and> length day \<le> 2"
    by blast
next
  assume "\<exists>mon ws day. t = mon @ ws @ day \<and> mon \<in> set MONTH_3_NAMES \<and> blank_run ws \<and>
      list_all is_digit day \<and> 1 \<le> length day \<and> length day \<le> 2"
  then obtain mon ws day where t: "t = mon @ ws @ day" and m: "mon \<in> set MONTH_3_NAMES"
    and w: "blank_run ws" and dd: "list_all is_digit day" and l: "1 \<le> length day"
    "length day \<le> 2" by blast
  from m have lm: "length mon = 3" by (rule month_names_length)
  from l(1) have dn: "day \<noteq> []" by auto
  then have "is_digit (hd day)" using dd by (cases day) auto
  then have nd: "\<not> is_space (hd day)" by (rule digit_not_space)
  from w have wa: "list_all is_space ws" and wn: "ws \<noteq> []" by (auto simp: blank_run_def)
  have t3: "take 3 t = mon" and d3: "drop 3 t = ws @ day" using lm by (simp_all add: t)
  have "takeWhile is_space (drop 3 t) = ws" and "dropWhile is_space (drop 3 t) = day"
    unfolding d3 using wa dn nd by (rule takeWhile_run)+
  then show "date_text t"
    using t3 m wn dn l(2) dd by (simp add: date_text_def Let_def)
qed

lemma rxm_date: "rxm DATE_RE i s g u g' \<longleftrightarrow> (date_text u \<and> g' = g)"
proof -
  have ne: "MONTH_3_NAMES \<noteq> []" by (simp add: MONTH_3_NAMES_def)
  have "rxm DATE_RE i s g u g' \<longleftrightarrow>
        (\<exists>u1 u2 g1. u = u1 @ u2 \<and> (u1 \<in> set MONTH_3_NAMES \<and> g1 = g) \<and>
           (\<exists>u3 u4 g2. u2 = u3 @ u4 \<and> (blank_run u3 \<and> g2 = g1) \<and>
              (list_all is_digit u4 \<and> 1 \<le> length u4 \<and> length u4 \<le> 2 \<and> g' = g2)))"
    unfolding DATE_RE_def MONTH_3_def seqs.simps rxm.simps(4) rxm_alts [OF ne] rxm_blanks
    by (simp add: count_ok_def)
  also have "\<dots> \<longleftrightarrow> ((\<exists>mon ws day. u = mon @ ws @ day \<and> mon \<in> set MONTH_3_NAMES \<and>
      blank_run ws \<and> list_all is_digit day \<and> 1 \<le> length day \<and> length day \<le> 2) \<and> g' = g)"
    by blast
  finally show ?thesis by (simp only: date_text_iff)
qed

subsection \<open>Dates, amounts and rows\<close>

lemma amount_digits:
  fixes d :: char
  assumes "is_digit d"
    and "dropWhile (\<lambda>c. is_digit c \<or> c = CHR '','') rest = [] \<or>
         (hd (dropWhile (\<lambda>c. is_digit c \<or> c = CHR '','') rest) = CHR ''.'' \<and>
          length (tl (dropWhile (\<lambda>c. is_digit c \<or> c = CHR '','') rest)) \<le> 2 \<and>
          list_all is_digit (tl (dropWhile (\<lambda>c. is_digit c \<or> c = CHR '','') rest)))"
  shows "\<exists>ds dot frac. rest = ds @ dot @ frac \<and>
      list_all (\<lambda>c. is_digit c \<or> c = CHR '','') ds \<and>
      (dot = [] \<or> dot = ''.'') \<and> list_all is_digit frac \<and> length frac \<le> 2"
proof -
  let ?Q = "\<lambda>c. is_digit c \<or> c = CHR '',''"
  let ?ds = "takeWhile ?Q rest"
  let ?r = "dropWhile ?Q rest"
  have b: "rest = ?ds @ ?r" by (simp only: takeWhile_dropWhile_id)
  have q: "list_all ?Q ?ds"
    unfolding list_all_iff by (blast dest: set_takeWhileD)
  show ?thesis
  proof (cases "?r = []")
    case True
    have "rest = ?ds @ [] @ []" using b unfolding True by simp
    with q have "rest = ?ds @ [] @ [] \<and> list_all ?Q ?ds \<and> ([] = [] \<or> [] = ''.'') \<and>
       list_all is_digit [] \<and> length ([] :: string) \<le> 2" by simp
    then show ?thesis by blast
  next
    case False
    with assms(2) have h: "hd ?r = CHR ''.''" and l: "length (tl ?r) \<le> 2"
      and f: "list_all is_digit (tl ?r)" by blast+
    from False h have "?r = ''.'' @ tl ?r" by (cases ?r) simp_all
    then have "rest = ?ds @ ''.'' @ tl ?r" using b by metis
    with q l f have "rest = ?ds @ ''.'' @ tl ?r \<and> list_all ?Q ?ds \<and>
       (''.'' = [] \<or> ''.'' = ''.'') \<and> list_all is_digit (tl ?r) \<and> length (tl ?r) \<le> 2"
      by simp
    then show ?thesis by blast
  qed
qed

lemma amount_text_iff:
  "amount_text a \<longleftrightarrow>
   (\<exists>sign d ds dot frac. a = sign @ [d] @ ds @ dot @ frac \<and>
      (sign = [] \<or> sign = ''-'') \<and> is_digit d \<and>
      list_all (\<lambda>c. is_digit c \<or> c = CHR '','') ds \<and>
      (dot = [] \<or> dot = ''.'') \<and> list_all is_digit frac \<and> length frac \<le> 2)"
    (is "_ \<longleftrightarrow> ?R")
proof
  let ?Q = "\<lambda>c. is_digit c \<or> c = CHR '',''"
  assume at: "amount_text a"
  define sign where "sign = (if take 1 a = ''-'' then ''-'' else [])"
  define b where "b = (if take 1 a = ''-'' then drop 1 a else a)"
  have a: "a = sign @ b"
  proof (cases "take 1 a = ''-''")
    case True
    have "a = take 1 a @ drop 1 a" by simp
    with True show ?thesis by (simp add: sign_def b_def)
  next
    case False
    then show ?thesis by (simp add: sign_def b_def)
  qed
  have sg: "sign = [] \<or> sign = ''-''" by (simp add: sign_def)
  from at have bn: "b \<noteq> []" and hd: "is_digit (hd b)"
    and r: "dropWhile ?Q (drop 1 b) = [] \<or>
         (hd (dropWhile ?Q (drop 1 b)) = CHR ''.'' \<and>
          length (tl (dropWhile ?Q (drop 1 b))) \<le> 2 \<and>
          list_all is_digit (tl (dropWhile ?Q (drop 1 b))))"
    unfolding amount_text_def Let_def b_def by blast+
  from bn obtain d rest where bd: "b = d # rest" by (cases b) auto
  with hd r have d: "is_digit d" and r': "dropWhile ?Q rest = [] \<or>
         (hd (dropWhile ?Q rest) = CHR ''.'' \<and>
          length (tl (dropWhile ?Q rest)) \<le> 2 \<and>
          list_all is_digit (tl (dropWhile ?Q rest)))" by simp_all
  from amount_digits [OF d r'] obtain ds dot frac where
    rest: "rest = ds @ dot @ frac" and p: "list_all ?Q ds"
    "dot = [] \<or> dot = ''.''" "list_all is_digit frac" "length frac \<le> 2" by blast
  have "a = sign @ [d] @ ds @ dot @ frac" by (simp add: a bd rest)
  with sg d p have "a = sign @ [d] @ ds @ dot @ frac \<and> (sign = [] \<or> sign = ''-'') \<and>
     is_digit d \<and> list_all ?Q ds \<and> (dot = [] \<or> dot = ''.'') \<and> list_all is_digit frac \<and>
     length frac \<le> 2" by simp
  then show ?R by blast
next
  let ?Q = "\<lambda>c. is_digit c \<or> c = CHR '',''"
  assume ?R
  then obtain sign d ds dot frac where a: "a = sign @ [d] @ ds @ dot @ frac"
    and s: "sign = [] \<or> sign = ''-''" and d: "is_digit d" and ds: "list_all ?Q ds"
    and dot: "dot = [] \<or> dot = ''.''" and fr: "list_all is_digit frac" "length frac \<le> 2"
    by blast
  from d have dm: "d \<noteq> CHR ''-''" by (auto simp: is_digit_def)
  have b: "(if take 1 a = ''-'' then drop 1 a else a) = d # ds @ dot @ frac"
    using s dm by (auto simp: a)
  have dsq: "\<forall>x\<in>set ds. ?Q x" using ds by (simp add: list_all_iff)
  have frq: "\<forall>x\<in>set frac. ?Q x" using fr(1) by (simp add: list_all_iff)
  show "amount_text a"
  proof (cases "dot = []")
    case True
    with dsq frq have "dropWhile ?Q (ds @ dot @ frac) = []"
      by (simp add: dropWhile_eq_Nil_conv)
    then show ?thesis
      unfolding amount_text_def Let_def b using d by simp
  next
    case False
    with dot have dd: "dot = ''.''" by simp
    have "\<not> ?Q (CHR ''.'')" by (simp add: is_digit_def)
    with dsq have "dropWhile ?Q (ds @ dot @ frac) = ''.'' @ frac"
      by (simp add: dd dropWhile_append2)
    then show ?thesis
      unfolding amount_text_def Let_def b using d fr by simp
  qed
qed

lemma rxm_Seq_simple:
  assumes "\<And>i s g u g'. rxm a i s g u g' \<longleftrightarrow> (A u \<and> g' = g)"
  shows "rxm (Seq a b) i s g u g' \<longleftrightarrow>
         (\<exists>u1 u2. u = u1 @ u2 \<and> A u1 \<and> rxm b (i + length u1) (drop (length u1) s) g u2 g')"
  by (auto simp: assms)

lemma rxm_opt:
  "rxm (Rep (\<lambda>c. c = ch) 0 (Some 1) True) i s g u g' \<longleftrightarrow> ((u = [] \<or> u = [ch]) \<and> g' = g)"
  by (cases u) (auto simp: count_ok_def)

lemma rxm_digit:
  "rxm (Cls is_digit) i s g u g' \<longleftrightarrow> ((\<exists>c. u = [c] \<and> is_digit c) \<and> g' = g)"
  by auto

lemma rxm_run:
  "rxm (Rep Q 0 None True) i s g u g' \<longleftrightarrow> (list_all Q u \<and> g' = g)"
  by (auto simp: count_ok_def)

lemma rxm_frac:
  "rxm (Rep is_digit 0 (Some 2) True) i s g u g' \<longleftrightarrow>
   ((list_all is_digit u \<and> length u \<le> 2) \<and> g' = g)"
  by (auto simp: count_ok_def)

lemma rxm_amount_nested:
  "rxm AMOUNT_RE i s g u g' \<longleftrightarrow>
        (\<exists>u1 u2. u = u1 @ u2 \<and> (u1 = [] \<or> u1 = ''-'') \<and>
          (\<exists>u3 u4. u2 = u3 @ u4 \<and> (\<exists>c. u3 = [c] \<and> is_digit c) \<and>
            (\<exists>u5 u6. u4 = u5 @ u6 \<and> list_all (\<lambda>c. is_digit c \<or> c = CHR '','') u5 \<and>
               (\<exists>u7 u8. u6 = u7 @ u8 \<and> (u7 = [] \<or> u7 = ''.'') \<and>
                  ((list_all is_digit u8 \<and> length u8 \<le> 2) \<and> g' = g)))))"
  unfolding AMOUNT_RE_def seqs.simps
  by (simp only: rxm_Seq_simple [OF rxm_opt] rxm_Seq_simple [OF rxm_digit]
        rxm_Seq_simple [OF rxm_run] rxm_frac)

lemma rxm_amount: "rxm AMOUNT_RE i s g u g' \<longleftrightarrow> (amount_text u \<and> g' = g)"
proof
  let ?Q = "\<lambda>c. is_digit c \<or> c = CHR '',''"
  assume "rxm AMOUNT_RE i s g u g'"
  then obtain u1 u2 where a1: "u = u1 @ u2" "u1 = [] \<or> u1 = ''-''"
    and r1: "\<exists>u3 u4. u2 = u3 @ u4 \<and> (\<exists>c. u3 = [c] \<and> is_digit c) \<and>
            (\<exists>u5 u6. u4 = u5 @ u6 \<and> list_all ?Q u5 \<and>
               (\<exists>u7 u8. u6 = u7 @ u8 \<and> (u7 = [] \<or> u7 = ''.'') \<and>
                  ((list_all is_digit u8 \<and> length u8 \<le> 2) \<and> g' = g)))"
    unfolding rxm_amount_nested by blast
  from r1 obtain u3 c u4 where a2': "u2 = u3 @ u4" "u3 = [c]" and a2d: "is_digit c"
    and r2: "\<exists>u5 u6. u4 = u5 @ u6 \<and> list_all ?Q u5 \<and>
               (\<exists>u7 u8. u6 = u7 @ u8 \<and> (u7 = [] \<or> u7 = ''.'') \<and>
                  ((list_all is_digit u8 \<and> length u8 \<le> 2) \<and> g' = g))"
    by blast
  from r2 obtain u5 u6 where a3: "u4 = u5 @ u6" "list_all ?Q u5"
    and r3: "\<exists>u7 u8. u6 = u7 @ u8 \<and> (u7 = [] \<or> u7 = ''.'') \<and>
                  ((list_all is_digit u8 \<and> length u8 \<le> 2) \<and> g' = g)"
    by blast
  from r3 obtain u7 u8 where a4: "u6 = u7 @ u8" "u7 = [] \<or> u7 = ''.''"
    "list_all is_digit u8" "length u8 \<le> 2" "g' = g"
    by blast
  have "u = u1 @ [c] @ u5 @ u7 @ u8" by (simp add: a1 a2' a3 a4)
  with a1(2) a2d a3(2) a4(2,3,4) have "u = u1 @ [c] @ u5 @ u7 @ u8 \<and>
      (u1 = [] \<or> u1 = ''-'') \<and> is_digit c \<and> list_all ?Q u5 \<and>
      (u7 = [] \<or> u7 = ''.'') \<and> list_all is_digit u8 \<and> length u8 \<le> 2" by simp
  then have "\<exists>sign d ds dot frac. u = sign @ [d] @ ds @ dot @ frac \<and>
      (sign = [] \<or> sign = ''-'') \<and> is_digit d \<and> list_all ?Q ds \<and>
      (dot = [] \<or> dot = ''.'') \<and> list_all is_digit frac \<and> length frac \<le> 2"
    by blast
  then have "amount_text u" by (simp only: amount_text_iff)
  with a4(5) show "amount_text u \<and> g' = g" by simp
next
  let ?Q = "\<lambda>c. is_digit c \<or> c = CHR '',''"
  assume a: "amount_text u \<and> g' = g"
  then have "\<exists>sign d ds dot frac. u = sign @ [d] @ ds @ dot @ frac \<and>
      (sign = [] \<or> sign = ''-'') \<and> is_digit d \<and> list_all ?Q ds \<and>
      (dot = [] \<or> dot = ''.'') \<and> list_all is_digit frac \<and> length frac \<le> 2"
    by (simp only: amount_text_iff)
  then obtain sign d ds dot frac where u: "u = sign @ [d] @ ds @ dot @ frac"
    and p: "sign = [] \<or> sign = ''-''" "is_digit d" "list_all ?Q ds"
    "dot = [] \<or> dot = ''.''" "list_all is_digit frac" "length frac \<le> 2"
    by blast
  from a have g: "g' = g" by simp
  have "dot @ frac = dot @ frac \<and> (dot = [] \<or> dot = ''.'') \<and>
                  ((list_all is_digit frac \<and> length frac \<le> 2) \<and> g' = g)"
    using p(4,5,6) g by simp
  then have s4: "\<exists>u7 u8. dot @ frac = u7 @ u8 \<and> (u7 = [] \<or> u7 = ''.'') \<and>
                  ((list_all is_digit u8 \<and> length u8 \<le> 2) \<and> g' = g)"
    by blast
  have "ds @ dot @ frac = ds @ (dot @ frac) \<and> list_all ?Q ds" using p(3) by simp
  with s4 have s3: "\<exists>u5 u6. ds @ dot @ frac = u5 @ u6 \<and> list_all ?Q u5 \<and>
               (\<exists>u7 u8. u6 = u7 @ u8 \<and> (u7 = [] \<or> u7 = ''.'') \<and>
                  ((list_all is_digit u8 \<and> length u8 \<le> 2) \<and> g' = g))"
    by blast
  have "[d] @ ds @ dot @ frac = [d] @ (ds @ dot @ frac) \<and> (\<exists>c. [d] = [c] \<and> is_digit c)"
    using p(2) by simp
  with s3 have s2: "\<exists>u3 u4. [d] @ ds @ dot @ frac = u3 @ u4 \<and>
            (\<exists>c. u3 = [c] \<and> is_digit c) \<and>
            (\<exists>u5 u6. u4 = u5 @ u6 \<and> list_all ?Q u5 \<and>
               (\<exists>u7 u8. u6 = u7 @ u8 \<and> (u7 = [] \<or> u7 = ''.'') \<and>
                  ((list_all is_digit u8 \<and> length u8 \<le> 2) \<and> g' = g)))"
    by blast
  have "u = sign @ ([d] @ ds @ dot @ frac) \<and> (sign = [] \<or> sign = ''-'')"
    using u p(1) by simp
  with s2 show "rxm AMOUNT_RE i s g u g'"
    unfolding rxm_amount_nested by blast
qed

lemma rxm_Grp_simple:
  assumes "\<And>i s g u g'. rxm r i s g u g' \<longleftrightarrow> (A u \<and> g' = g)"
  shows "rxm (Grp n r) i s g u g' \<longleftrightarrow> (A u \<and> g' = g @ [(n, u)])"
  by (auto simp: assms)

lemma rxm_plain:
  assumes "\<And>i s g u g'. rxm r i s g u g' \<longleftrightarrow> (A u \<and> g' = g)"
  shows "rxm r i s g u g' \<longleftrightarrow> (A u \<and> g' = g @ [])"
  by (simp add: assms)

lemma seq_step:
  assumes a: "\<And>i s g u g'. rxm a i s g u g' \<longleftrightarrow> (A u \<and> g' = g @ H u)"
    and b: "\<And>i s g u g'. rxm b i s g u g' \<longleftrightarrow>
              (\<exists>x. u = F x \<and> C x \<and> line_end (drop (length u) s) \<and> g' = g @ G x)"
  shows "rxm (Seq a b) i s g u g' \<longleftrightarrow>
         (\<exists>y. u = fst y @ F (snd y) \<and> (A (fst y) \<and> C (snd y)) \<and>
              line_end (drop (length u) s) \<and> g' = g @ (H (fst y) @ G (snd y)))"
proof
  assume "rxm (Seq a b) i s g u g'"
  then obtain u1 u2 g1 where u: "u = u1 @ u2" and ra: "rxm a i s g u1 g1"
    and rb: "rxm b (i + length u1) (drop (length u1) s) g1 u2 g'" by auto
  from ra have a1: "A u1" and g1: "g1 = g @ H u1" by (simp_all add: a)
  from rb obtain x where x: "u2 = F x" "C x"
    "line_end (drop (length u2) (drop (length u1) s))" "g' = g1 @ G x"
    unfolding b by blast
  have e: "drop (length u2) (drop (length u1) s) = drop (length u) s"
    by (simp add: u add.commute)
  have "u = fst (u1, x) @ F (snd (u1, x)) \<and> (A (fst (u1, x)) \<and> C (snd (u1, x))) \<and>
        line_end (drop (length u) s) \<and> g' = g @ (H (fst (u1, x)) @ G (snd (u1, x)))"
    using u x a1 g1 e by simp
  then show "\<exists>y. u = fst y @ F (snd y) \<and> (A (fst y) \<and> C (snd y)) \<and>
              line_end (drop (length u) s) \<and> g' = g @ (H (fst y) @ G (snd y))" ..
next
  assume "\<exists>y. u = fst y @ F (snd y) \<and> (A (fst y) \<and> C (snd y)) \<and>
              line_end (drop (length u) s) \<and> g' = g @ (H (fst y) @ G (snd y))"
  then obtain y where y: "u = fst y @ F (snd y)" "A (fst y)" "C (snd y)"
    "line_end (drop (length u) s)" "g' = g @ (H (fst y) @ G (snd y))" by blast
  have e: "drop (length (F (snd y))) (drop (length (fst y)) s) = drop (length u) s"
    by (simp add: y(1) add.commute)
  have ra: "rxm a i s g (fst y) (g @ H (fst y))" using y(2) by (simp add: a)
  have "F (snd y) = F (snd y) \<and> C (snd y) \<and>
        line_end (drop (length (F (snd y))) (drop (length (fst y)) s)) \<and>
        g' = (g @ H (fst y)) @ G (snd y)"
    using y(3,4,5) e by simp
  then have rb: "rxm b (i + length (fst y)) (drop (length (fst y)) s) (g @ H (fst y))
                   (F (snd y)) g'"
    unfolding b by blast
  from y(1) ra rb show "rxm (Seq a b) i s g u g'" by auto
qed

lemma rxm_Eol_unit:
  "rxm Eol i s g u g' \<longleftrightarrow>
   (\<exists>x::unit. u = [] \<and> True \<and> line_end (drop (length u) s) \<and> g' = g @ [])"
  by (auto simp: line_end_def)

lemmas row_steps =
  seq_step [OF rxm_Grp_simple [OF rxm_date, of "''tdate''"]
    seq_step [OF rxm_plain [OF rxm_blanks]
      seq_step [OF rxm_Grp_simple [OF rxm_date, of "''pdate''"]
        seq_step [OF rxm_plain [OF rxm_blanks]
          seq_step [OF rxm_Grp_simple [OF rxm_body, of "''body''"]
            seq_step [OF rxm_plain [OF rxm_blanks]
              seq_step [OF rxm_Grp_simple [OF rxm_amount, of "''amount''"]
                rxm_Eol_unit]]]]]]]

lemma rxm_row:
  "rxm ROW_RE 0 s [] u g' \<longleftrightarrow>
   (\<exists>td w1 pd w2 body w3 amt.
      u = td @ w1 @ pd @ w2 @ body @ w3 @ amt \<and>
      row_parts td w1 pd w2 body w3 amt \<and> CHR 0x0A \<notin> set body \<and>
      line_end (drop (length u) s) \<and>
      g' = [(''tdate'', td), (''pdate'', pd), (''body'', body), (''amount'', amt)])"
proof -
  have "rxm ROW_RE 0 s [] u g' \<longleftrightarrow>
        rxm (seqs [Grp ''tdate'' DATE_RE, Rep is_space 1 None True,
           Grp ''pdate'' DATE_RE, Rep is_space 1 None True,
           Grp ''body'' (Rep any_char 1 None False), Rep is_space 1 None True,
           Grp ''amount'' AMOUNT_RE, Eol]) 0 s [] u g'"
    by (simp add: ROW_RE_def)
  also have "\<dots> \<longleftrightarrow>
   (\<exists>td w1 pd w2 body w3 amt.
      u = td @ w1 @ pd @ w2 @ body @ w3 @ amt \<and>
      row_parts td w1 pd w2 body w3 amt \<and> CHR 0x0A \<notin> set body \<and>
      line_end (drop (length u) s) \<and>
      g' = [(''tdate'', td), (''pdate'', pd), (''body'', body), (''amount'', amt)])"
    unfolding seqs.simps row_steps
    by (simp add: row_parts_def) blast
  finally show ?thesis .
qed

subsection \<open>The first match\<close>

lemma amount_text_first:
  assumes "amount_text a"
  shows "a \<noteq> [] \<and> \<not> is_space (hd a)"
proof -
  from assms obtain sign d ds dot frac where a: "a = sign @ [d] @ ds @ dot @ frac"
    and s: "sign = [] \<or> sign = ''-''" and d: "is_digit d"
    unfolding amount_text_iff by blast
  from d have "\<not> is_space d" by (rule digit_not_space)
  moreover have "\<not> is_space (CHR ''-'')" by (simp add: is_space_def)
  ultimately show ?thesis using s by (auto simp: a)
qed

lemma amount_tail_iff:
  "amount_tail t \<longleftrightarrow> (\<exists>w a. t = w @ a \<and> blank_run w \<and> amount_text a)"
proof
  assume t: "amount_tail t"
  have "t = takeWhile is_space t @ dropWhile is_space t" by simp
  moreover have "blank_run (takeWhile is_space t)"
    using t by (auto simp: amount_tail_def blank_run_def list_all_iff dest: set_takeWhileD)
  moreover have "amount_text (dropWhile is_space t)" using t by (simp add: amount_tail_def)
  ultimately show "\<exists>w a. t = w @ a \<and> blank_run w \<and> amount_text a" by blast
next
  assume "\<exists>w a. t = w @ a \<and> blank_run w \<and> amount_text a"
  then obtain w a where t: "t = w @ a" and w: "blank_run w" and a: "amount_text a" by blast
  from w have wa: "list_all is_space w" and wn: "w \<noteq> []" by (auto simp: blank_run_def)
  note f = amount_text_first [OF a]
  have "takeWhile is_space (w @ a) = w" and "dropWhile is_space (w @ a) = a"
    using wa f by (simp_all add: takeWhile_run)
  then show "amount_tail t" using wn a by (simp add: amount_tail_def t)
qed

lemma rep_ends_eq:
  "rep_ends p s k = map (\<lambda>n. (k + n, drop n s)) [0..<Suc (length (takeWhile p s))]"
proof (induction s arbitrary: k)
  case Nil
  show ?case by simp
next
  case (Cons c cs)
  show ?case
  proof (cases "p c")
    case True
    have "[0..<Suc (Suc (length (takeWhile p cs)))] =
          0 # [Suc 0..<Suc (Suc (length (takeWhile p cs)))]"
      by (rule upt_conv_Cons) simp
    also have "[Suc 0..<Suc (Suc (length (takeWhile p cs)))] =
          map Suc [0..<Suc (length (takeWhile p cs))]"
      by (simp only: map_Suc_upt)
    finally show ?thesis using True by (simp add: Cons.IH del: upt_Suc)
  next
    case False
    then show ?thesis by simp
  qed
qed

lemma ms_body:
  "ms (Grp n (Rep p 1 None False)) (i, s) g =
     map (\<lambda>k. ((i + k, drop k s), g @ [(n, take k s)])) [1..<Suc (length (takeWhile p s))]"
proof -
  let ?N = "length (takeWhile p s)"
  have u: "[0..<Suc ?N] = 0 # [1..<Suc ?N]" by (simp add: upt_conv_Cons del: upt_Suc)
  have f: "filter (\<lambda>e. count_ok (Suc 0) None (fst e)) (rep_ends p s 0) =
           map (\<lambda>k. (k, drop k s)) [1..<Suc ?N]"
    unfolding rep_ends_eq u
    by (simp add: count_ok_def filter_map o_def del: upt_Suc)
  show ?thesis
    by (simp add: f Let_def o_def del: upt_Suc)
qed

lemma first_success_upt:
  assumes "concat (map f [a..<b]) = y # ys"
  shows "\<exists>n zs. a \<le> n \<and> n < b \<and> f n = y # zs \<and> (\<forall>k. a \<le> k \<and> k < n \<longrightarrow> f k = [])"
  using assms
proof (induction "b - a" arbitrary: a)
  case 0
  then show ?case by simp
next
  case (Suc d)
  then have ab: "a < b" by simp
  then have u: "[a..<b] = a # [Suc a..<b]" by (rule upt_conv_Cons)
  show ?case
  proof (cases "f a")
    case Nil
    with Suc.prems u have c: "concat (map f [Suc a..<b]) = y # ys" by simp
    from Suc.hyps(2) have "d = b - Suc a" by simp
    from Suc.hyps(1) [OF this c] obtain n zs where n: "Suc a \<le> n" "n < b" "f n = y # zs"
      "\<forall>k. Suc a \<le> k \<and> k < n \<longrightarrow> f k = []" by blast
    have "\<forall>k. a \<le> k \<and> k < n \<longrightarrow> f k = []"
    proof (intro allI impI)
      fix k assume k: "a \<le> k \<and> k < n"
      show "f k = []"
      proof (cases "k = a")
        case True
        with Nil show ?thesis by simp
      next
        case False
        with k have "Suc a \<le> k \<and> k < n" by simp
        with n(4) show ?thesis by blast
      qed
    qed
    with n(1,2,3) have "a \<le> n \<and> n < b \<and> f n = y # zs \<and>
        (\<forall>k. a \<le> k \<and> k < n \<longrightarrow> f k = [])" by simp
    then show ?thesis by blast
  next
    case (Cons z zs)
    with Suc.prems u have "f a = y # zs" by simp
    with ab have "a \<le> a \<and> a < b \<and> f a = y # zs \<and> (\<forall>k. a \<le> k \<and> k < a \<longrightarrow> f k = [])"
      by auto
    then show ?thesis by blast
  qed
qed

lemma ms_Seq_first:
  assumes "ms (Seq a b) st g = res # rest"
  shows "\<exists>r\<in>set (ms a st g). \<exists>rest'. ms b (fst r) (snd r) = res # rest'"
proof -
  have "\<And>xs. concat (map (\<lambda>r. ms b (fst r) (snd r)) xs) = res # rest \<Longrightarrow>
          \<exists>r\<in>set xs. \<exists>rest'. ms b (fst r) (snd r) = res # rest'"
  proof -
    fix xs
    show "concat (map (\<lambda>r. ms b (fst r) (snd r)) xs) = res # rest \<Longrightarrow>
          \<exists>r\<in>set xs. \<exists>rest'. ms b (fst r) (snd r) = res # rest'"
    proof (induction xs)
      case Nil
      then show ?case by simp
    next
      case (Cons x xs)
      show ?case
      proof (cases "ms b (fst x) (snd x)")
        case Nil
        with Cons show ?thesis by simp
      next
        case (Cons z zs)
        with Cons.prems have "ms b (fst x) (snd x) = res # zs" by simp
        then show ?thesis by simp
      qed
    qed
  qed
  with assms show ?thesis by simp
qed

text \<open>With a lazy body, the first match has the shortest body that lets the rest match.\<close>

lemma ms_lazy_first:
  assumes "ms (Seq (Grp n (Rep p 1 None False)) x) (i, s) g = res # rest"
  shows "\<exists>k rest'. 1 \<le> k \<and> k \<le> length (takeWhile p s) \<and>
           ms x (i + k, drop k s) (g @ [(n, take k s)]) = res # rest' \<and>
           (\<forall>j. 1 \<le> j \<and> j < k \<longrightarrow> ms x (i + j, drop j s) (g @ [(n, take j s)]) = [])"
proof -
  let ?f = "\<lambda>k. ms x (i + k, drop k s) (g @ [(n, take k s)])"
  have "ms (Seq (Grp n (Rep p 1 None False)) x) (i, s) g =
        concat (map ?f [1..<Suc (length (takeWhile p s))])"
    unfolding ms.simps(4) ms_body by (simp add: o_def del: upt_Suc)
  with assms have "concat (map ?f [1..<Suc (length (takeWhile p s))]) = res # rest" by simp
  from first_success_upt [OF this] obtain k zs where
    "1 \<le> k" "k < Suc (length (takeWhile p s))" "?f k = res # zs"
    "\<forall>j. 1 \<le> j \<and> j < k \<longrightarrow> ?f j = []" by blast
  then have "1 \<le> k \<and> k \<le> length (takeWhile p s) \<and> ?f k = res # zs \<and>
             (\<forall>j. 1 \<le> j \<and> j < k \<longrightarrow> ?f j = [])" by simp
  then show ?thesis by blast
qed

lemma ms_simple_elem:
  assumes a: "\<And>i s g u g'. rxm a i s g u g' \<longleftrightarrow> (A u \<and> g' = g @ H u)"
    and r: "r \<in> set (ms a (i, s) g)"
  shows "\<exists>u t. s = u @ t \<and> A u \<and> r = ((i + length u, t), g @ H u)"
proof -
  from r have "(fst r, snd r) \<in> set (ms a (i, s) g)" by simp
  then obtain u where u: "startswith s u" "fst r = (i + length u, drop (length u) s)"
    "rxm a i s g u (snd r)" unfolding ms_iff by blast
  from u(1) have "s = u @ drop (length u) s"
    by (metis append_take_drop_id startswith_def)
  moreover from u(3) have "A u" and "snd r = g @ H u" by (simp_all add: a)
  moreover from u(2) \<open>snd r = g @ H u\<close> have "r = ((i + length u, drop (length u) s), g @ H u)"
    by (metis prod.collapse)
  ultimately show ?thesis by blast
qed

lemma rxm_tail:
  "rxm (Seq (Rep is_space 1 None True) (Seq (Grp ''amount'' AMOUNT_RE) Eol)) i s g u g' \<longleftrightarrow>
   (\<exists>w a. u = w @ a \<and> blank_run w \<and> amount_text a \<and> line_end (drop (length u) s) \<and>
          g' = g @ [(''amount'', a)])"
  unfolding seq_step [OF rxm_plain [OF rxm_blanks]
              seq_step [OF rxm_Grp_simple [OF rxm_amount, of "''amount''"] rxm_Eol_unit]]
  by simp

lemma line_end_suffix:
  assumes "CHR 0x0A \<notin> set (x @ t)" and "line_end t"
  shows "t = []"
  using assms by (auto simp: line_end_def)

text \<open>
  The first match of the row pattern on a line: its groups are the parts of a row,
  and no shorter body from the same place is followed by white space and an amount
  up to the end of the line.
\<close>

lemma row_first_match:
  assumes nl: "CHR 0x0A \<notin> set line" and m: "re_match ROW_RE line = Some m"
  shows "\<exists>td w1 pd w2 body w3 amt.
           line = td @ w1 @ pd @ w2 @ body @ w3 @ amt \<and>
           row_parts td w1 pd w2 body w3 amt \<and>
           m_groups m = [(''tdate'', td), (''pdate'', pd), (''body'', body), (''amount'', amt)] \<and>
           (\<forall>k. 0 < k \<and> k < length body \<longrightarrow> \<not> amount_tail (drop k body @ w3 @ amt))"
proof -
  let ?W = "Rep is_space 1 None True"
  let ?X = "Seq ?W (Seq (Grp ''amount'' AMOUNT_RE) Eol)"
  let ?R6 = "Seq (Grp ''body'' (Rep any_char 1 None False)) ?X"
  let ?R5 = "Seq ?W ?R6"
  let ?R4 = "Seq (Grp ''pdate'' DATE_RE) ?R5"
  let ?R3 = "Seq ?W ?R4"
  let ?R2 = "Seq (Grp ''tdate'' DATE_RE) ?R3"
  have row: "ROW_RE = Seq Bol ?R2" by (simp add: ROW_RE_def)
  from m obtain res rest where l: "ms ROW_RE (0, line) [] = res # rest"
    and mg: "m_groups m = snd res"
    by (auto simp: re_match_def match_at_def split: list.splits)
  from l have "ms (Seq Bol ?R2) (0, line) [] = res # rest" by (simp only: row)
  from ms_Seq_first [OF this] obtain rest2 where
    l2: "ms ?R2 (0, line) [] = res # rest2" by auto
  from ms_Seq_first [OF l2] obtain r2 rest3 where
    r2: "r2 \<in> set (ms (Grp ''tdate'' DATE_RE) (0, line) [])"
    and l3: "ms ?R3 (fst r2) (snd r2) = res # rest3" by blast
  from ms_simple_elem [OF rxm_Grp_simple [OF rxm_date] r2] obtain td s1 where
    d1: "line = td @ s1" "date_text td" "r2 = ((0 + length td, s1), [] @ [(''tdate'', td)])"
    by blast
  from l3 d1(3) have l3': "ms ?R3 (length td, s1) [(''tdate'', td)] = res # rest3" by simp
  from ms_Seq_first [OF l3'] obtain r3 rest4 where
    r3: "r3 \<in> set (ms ?W (length td, s1) [(''tdate'', td)])"
    and l4: "ms ?R4 (fst r3) (snd r3) = res # rest4" by blast
  from ms_simple_elem [OF rxm_plain [OF rxm_blanks] r3] obtain w1 s2 where
    d2: "s1 = w1 @ s2" "blank_run w1"
    "r3 = ((length td + length w1, s2), [(''tdate'', td)] @ [])" by blast
  from l4 d2(3) have l4': "ms ?R4 (length td + length w1, s2) [(''tdate'', td)] = res # rest4"
    by simp
  from ms_Seq_first [OF l4'] obtain r4 rest5 where
    r4: "r4 \<in> set (ms (Grp ''pdate'' DATE_RE) (length td + length w1, s2) [(''tdate'', td)])"
    and l5: "ms ?R5 (fst r4) (snd r4) = res # rest5" by blast
  from ms_simple_elem [OF rxm_Grp_simple [OF rxm_date] r4] obtain pd s3 where
    d3: "s2 = pd @ s3" "date_text pd"
    "r4 = ((length td + length w1 + length pd, s3), [(''tdate'', td)] @ [(''pdate'', pd)])"
    by blast
  let ?g = "[(''tdate'', td), (''pdate'', pd)]"
  from l5 d3(3) have l5': "ms ?R5 (length td + length w1 + length pd, s3) ?g = res # rest5"
    by simp
  from ms_Seq_first [OF l5'] obtain r5 rest6 where
    r5: "r5 \<in> set (ms ?W (length td + length w1 + length pd, s3) ?g)"
    and l6: "ms ?R6 (fst r5) (snd r5) = res # rest6" by blast
  from ms_simple_elem [OF rxm_plain [OF rxm_blanks] r5] obtain w2 s5 where
    d4: "s3 = w2 @ s5" "blank_run w2"
    "r5 = ((length td + length w1 + length pd + length w2, s5), ?g @ [])" by blast
  let ?i = "length td + length w1 + length pd + length w2"
  from l6 d4(3) have l6': "ms ?R6 (?i, s5) ?g = res # rest6" by simp
  from ms_lazy_first [OF l6'] obtain k rest7 where k: "1 \<le> k"
    "k \<le> length (takeWhile any_char s5)"
    and l7: "ms ?X (?i + k, drop k s5) (?g @ [(''body'', take k s5)]) = res # rest7"
    and least: "\<forall>j. 1 \<le> j \<and> j < k \<longrightarrow>
                  ms ?X (?i + j, drop j s5) (?g @ [(''body'', take j s5)]) = []"
    by blast
  have ks: "k \<le> length s5"
    using k(2) length_takeWhile_le [of any_char s5] by (rule order_trans)
  let ?body = "take k s5"
  have bl: "length ?body = k" using ks by simp
  from l7 have "(fst res, snd res) \<in>
      set (ms ?X (?i + k, drop k s5) (?g @ [(''body'', ?body)]))" by simp
  then obtain u where u: "startswith (drop k s5) u"
    "rxm ?X (?i + k) (drop k s5) (?g @ [(''body'', ?body)]) u (snd res)"
    unfolding ms_iff by blast
  from u(2) obtain w3 amt where t: "u = w3 @ amt" "blank_run w3" "amount_text amt"
    "line_end (drop (length u) (drop k s5))"
    "snd res = (?g @ [(''body'', ?body)]) @ [(''amount'', amt)]"
    unfolding rxm_tail by blast
  have line: "line = td @ w1 @ pd @ w2 @ s5" by (simp add: d1(1) d2(1) d3(1) d4(1))
  have s5: "s5 = ?body @ drop k s5" by simp
  from u(1) have dk: "drop k s5 = u @ drop (length u) (drop k s5)"
    by (metis append_take_drop_id startswith_def)
  have "line = (td @ w1 @ pd @ w2 @ ?body @ u) @ drop (length u) (drop k s5)"
    using line s5 dk by (metis append.assoc)
  with nl have "CHR 0x0A \<notin> set ((td @ w1 @ pd @ w2 @ ?body @ u) @ drop (length u) (drop k s5))"
    by simp
  then have e: "drop (length u) (drop k s5) = []" using t(4) by (rule line_end_suffix)
  with dk have dk': "drop k s5 = w3 @ amt" by (simp add: t(1))
  with s5 have s5': "s5 = ?body @ w3 @ amt" by metis
  have p1: "line = td @ w1 @ pd @ w2 @ ?body @ w3 @ amt"
    using line s5' by metis
  have bn: "?body \<noteq> []" using k(1) bl by auto
  have p2: "row_parts td w1 pd w2 ?body w3 amt"
    using d1(2) d2(2) d3(2) d4(2) bn t(2,3) by (simp add: row_parts_def)
  have p3: "m_groups m =
      [(''tdate'', td), (''pdate'', pd), (''body'', ?body), (''amount'', amt)]"
    using mg t(5) by simp
  have p4: "\<forall>j. 0 < j \<and> j < length ?body \<longrightarrow> \<not> amount_tail (drop j ?body @ w3 @ amt)"
  proof (intro allI impI notI)
    fix j
    assume j: "0 < j \<and> j < length ?body" and at: "amount_tail (drop j ?body @ w3 @ amt)"
    from j bl have jk: "1 \<le> j \<and> j < k" by simp
    with least have none: "ms ?X (?i + j, drop j s5) (?g @ [(''body'', take j s5)]) = []"
      by blast
    have dj: "drop j s5 = drop j ?body @ w3 @ amt"
    proof -
      have "drop j s5 = drop j (?body @ w3 @ amt)" using s5' by metis
      also have "\<dots> = drop j ?body @ w3 @ amt" using jk bl by simp
      finally show ?thesis .
    qed
    from at obtain w a where wa: "drop j ?body @ w3 @ amt = w @ a" "blank_run w"
      "amount_text a" unfolding amount_tail_iff by blast
    let ?t = "drop j s5"
    have "?t = w @ a" using dj wa(1) by simp
    then have "startswith ?t (w @ a)" and "drop (length (w @ a)) ?t = []"
      by (simp_all add: startswith_def)
    moreover have "rxm ?X (?i + j) ?t (?g @ [(''body'', take j s5)]) (w @ a)
                     ((?g @ [(''body'', take j s5)]) @ [(''amount'', a)])"
      unfolding rxm_tail using wa(2,3) \<open>drop (length (w @ a)) ?t = []\<close>
      by (intro exI [of _ w] exI [of _ a]) (simp add: line_end_def)
    ultimately have "((?i + j + length (w @ a), drop (length (w @ a)) ?t),
        (?g @ [(''body'', take j s5)]) @ [(''amount'', a)]) \<in>
        set (ms ?X (?i + j, ?t) (?g @ [(''body'', take j s5)]))"
      unfolding ms_iff by blast
    then show False unfolding none by (simp only: list.set empty_iff)
  qed
  from p1 p2 p3 p4 show ?thesis by blast
qed

lemma amount_text_chars:
  assumes "amount_text a"
  shows "\<forall>c\<in>set a. \<not> is_space c"
proof -
  from assms obtain sign d ds dot frac where a: "a = sign @ [d] @ ds @ dot @ frac"
    and s: "sign = [] \<or> sign = ''-''" and d: "is_digit d"
    and ds: "list_all (\<lambda>c. is_digit c \<or> c = CHR '','') ds"
    and dot: "dot = [] \<or> dot = ''.''" and fr: "list_all is_digit frac"
    unfolding amount_text_iff by blast
  have m: "\<not> is_space (CHR ''-'')" and c: "\<not> is_space (CHR '','')"
    and p: "\<not> is_space (CHR ''.'')" by (simp_all add: is_space_def)
  have "\<forall>c\<in>set sign. \<not> is_space c" using s m by auto
  moreover have "\<forall>c\<in>set ds. \<not> is_space c"
    using ds c by (auto simp: list_all_iff dest: digit_not_space)
  moreover have "\<forall>c\<in>set dot. \<not> is_space c" using dot p by auto
  moreover have "\<forall>c\<in>set frac. \<not> is_space c"
    using fr by (auto simp: list_all_iff dest: digit_not_space)
  moreover have "\<not> is_space d" using d by (rule digit_not_space)
  ultimately show ?thesis by (auto simp: a)
qed

lemma split_acc_last_word:
  assumes "is_space c" and "a \<noteq> []" and "\<forall>x\<in>set a. \<not> is_space x"
  shows "\<exists>pre. split_acc cur (x @ c # a) = pre @ [a]"
proof (induction x arbitrary: cur)
  case Nil
  have "split_acc [] a = [a]"
    using split_acc_word_end [OF assms(3), of "[]"] assms(2) by simp
  then show ?case using assms(1) by (cases "cur = []") simp_all
next
  case (Cons y x)
  show ?case
  proof (cases "is_space y")
    case True
    from Cons [of "[]"] obtain pre where p: "split_acc [] (x @ c # a) = pre @ [a]" by blast
    show ?thesis
    proof (cases "cur = []")
      case True
      with \<open>is_space y\<close> p have "split_acc cur ((y # x) @ c # a) = pre @ [a]" by simp
      then show ?thesis ..
    next
      case False
      with \<open>is_space y\<close> p have "split_acc cur ((y # x) @ c # a) = (cur # pre) @ [a]"
        by simp
      then show ?thesis ..
    qed
  next
    case False
    with Cons [of "cur @ [y]"] show ?thesis by simp
  qed
qed

lemma split_last_token:
  assumes "blank_run w" and "a \<noteq> []" and "\<forall>x\<in>set a. \<not> is_space x"
  shows "last (split (x @ w @ a)) = a"
proof -
  from assms(1) have wn: "w \<noteq> []" and "list_all is_space w" by (auto simp: blank_run_def)
  then have l: "is_space (last w)" by (simp add: list_all_iff)
  from wn have "x @ w @ a = (x @ butlast w) @ last w # a" by simp
  then have "split (x @ w @ a) = split_acc [] ((x @ butlast w) @ last w # a)"
    by (simp only: split_def)
  with split_acc_last_word [OF l assms(2,3), of "[]" "x @ butlast w"]
  obtain pre where "split (x @ w @ a) = pre @ [a]" by metis
  then show ?thesis by simp
qed

lemma group_lookup:
  "m_groups m = [(''tdate'', td), (''pdate'', pd), (''body'', body), (''amount'', amt)] \<Longrightarrow>
   group m ''tdate'' = td \<and> group m ''pdate'' = pd \<and> group m ''body'' = body \<and>
   group m ''amount'' = amt"
  by (simp add: group_def)

lemma row_accepts:
  assumes "CHR 0x0A \<notin> set line"
  shows "re_match ROW_RE line \<noteq> None \<longleftrightarrow>
         (\<exists>td w1 pd w2 body w3 amt.
            line = td @ w1 @ pd @ w2 @ body @ w3 @ amt \<and> row_parts td w1 pd w2 body w3 amt)"
proof
  assume "re_match ROW_RE line \<noteq> None"
  then obtain m where "re_match ROW_RE line = Some m" by auto
  from row_first_match [OF assms this]
  show "\<exists>td w1 pd w2 body w3 amt.
            line = td @ w1 @ pd @ w2 @ body @ w3 @ amt \<and> row_parts td w1 pd w2 body w3 amt"
    by blast
next
  assume "\<exists>td w1 pd w2 body w3 amt.
            line = td @ w1 @ pd @ w2 @ body @ w3 @ amt \<and> row_parts td w1 pd w2 body w3 amt"
  then obtain td w1 pd w2 body w3 amt where
    l: "line = td @ w1 @ pd @ w2 @ body @ w3 @ amt"
    and p: "row_parts td w1 pd w2 body w3 amt" by blast
  from assms l have b: "CHR 0x0A \<notin> set body" by simp
  have e: "line_end (drop (length line) line)" by (simp add: line_end_def)
  let ?g = "[(''tdate'', td), (''pdate'', pd), (''body'', body), (''amount'', amt)]"
  have "line = td @ w1 @ pd @ w2 @ body @ w3 @ amt \<and> row_parts td w1 pd w2 body w3 amt \<and>
        CHR 0x0A \<notin> set body \<and> line_end (drop (length line) line) \<and> ?g = ?g"
    using l p b e by simp
  then have "rxm ROW_RE 0 line [] line ?g" unfolding rxm_row by blast
  moreover have "startswith line line" by (simp add: startswith_def)
  ultimately show "re_match ROW_RE line \<noteq> None" unfolding re_match_exists by blast
qed

text \<open>
  Claim C3, as amended. On a line (a text without line feed) the row pattern
  matches exactly when the line is two dates, a body and an amount, separated by
  white space: each date an abbreviated month name, white space and a day of one or
  two digits, the body any non-empty text, and the amount an optional minus sign, a
  digit, then digits and commas in any arrangement, and then nothing more or a point
  with up to two digits. The groups of a match are these parts. The body is matched
  lazily: no shorter text, from the place where the body starts, is followed by
  white space and an amount that reaches the end of the line. The amount is the
  last word of the line, so the trailing number is never taken into the body. The
  line \<open>Jan 5 Jan 7 TIM HORTONS OTTAWA ON Retail and Grocery 12.34\<close> splits into
  the dates \<open>Jan 5\<close> and \<open>Jan 7\<close>, the body
  \<open>TIM HORTONS OTTAWA ON Retail and Grocery\<close> and the amount \<open>12.34\<close>.
\<close>

theorem row_grammar:
  assumes "CHR 0x0A \<notin> set line"
  shows "(re_match ROW_RE line \<noteq> None \<longleftrightarrow>
           (\<exists>td w1 pd w2 body w3 amt.
              line = td @ w1 @ pd @ w2 @ body @ w3 @ amt \<and>
              row_parts td w1 pd w2 body w3 amt)) \<and>
         (\<forall>m. re_match ROW_RE line = Some m \<longrightarrow>
            (\<exists>w1 w2 w3.
               line = group m ''tdate'' @ w1 @ group m ''pdate'' @ w2 @ group m ''body'' @
                      w3 @ group m ''amount'' \<and>
               row_parts (group m ''tdate'') w1 (group m ''pdate'') w2 (group m ''body'')
                         w3 (group m ''amount'') \<and>
               (\<forall>k. 0 < k \<and> k < length (group m ''body'') \<longrightarrow>
                    \<not> amount_tail (drop k (group m ''body'') @ w3 @ group m ''amount''))) \<and>
            group m ''amount'' = last (split line)) \<and>
         re_match ROW_RE ''Jan 5 Jan 7 TIM HORTONS OTTAWA ON Retail and Grocery 12.34'' =
           Some \<lparr>m_start = 0, m_end = 58,
                  m_groups = [(''tdate'', ''Jan 5''), (''pdate'', ''Jan 7''),
                              (''body'', ''TIM HORTONS OTTAWA ON Retail and Grocery''),
                              (''amount'', ''12.34'')]\<rparr>"
proof (intro conjI allI impI)
  show "re_match ROW_RE line \<noteq> None \<longleftrightarrow>
           (\<exists>td w1 pd w2 body w3 amt.
              line = td @ w1 @ pd @ w2 @ body @ w3 @ amt \<and>
              row_parts td w1 pd w2 body w3 amt)"
    using assms by (rule row_accepts)
next
  fix m
  assume m: "re_match ROW_RE line = Some m"
  from row_first_match [OF assms m] obtain td w1 pd w2 body w3 amt where
    l: "line = td @ w1 @ pd @ w2 @ body @ w3 @ amt"
    and p: "row_parts td w1 pd w2 body w3 amt"
    and g: "m_groups m = [(''tdate'', td), (''pdate'', pd), (''body'', body), (''amount'', amt)]"
    and s: "\<forall>k. 0 < k \<and> k < length body \<longrightarrow> \<not> amount_tail (drop k body @ w3 @ amt)"
    by blast
  note gl = group_lookup [OF g]
  from gl have g1: "group m ''tdate'' = td" and g2: "group m ''pdate'' = pd"
    and g3: "group m ''body'' = body" and g4: "group m ''amount'' = amt" by simp_all
  have "line = td @ w1 @ pd @ w2 @ body @ w3 @ amt \<and> row_parts td w1 pd w2 body w3 amt \<and>
        (\<forall>k. 0 < k \<and> k < length body \<longrightarrow> \<not> amount_tail (drop k body @ w3 @ amt))"
    using l p s by simp
  then show "\<exists>w1 w2 w3.
               line = group m ''tdate'' @ w1 @ group m ''pdate'' @ w2 @ group m ''body'' @
                      w3 @ group m ''amount'' \<and>
               row_parts (group m ''tdate'') w1 (group m ''pdate'') w2 (group m ''body'')
                         w3 (group m ''amount'') \<and>
               (\<forall>k. 0 < k \<and> k < length (group m ''body'') \<longrightarrow>
                    \<not> amount_tail (drop k (group m ''body'') @ w3 @ group m ''amount''))"
    unfolding g1 g2 g3 g4 by blast
  from p have w: "blank_run w3" and a: "amount_text amt" by (simp_all add: row_parts_def)
  have "line = (td @ w1 @ pd @ w2 @ body) @ w3 @ amt" using l by simp
  then have "last (split line) = amt"
    using split_last_token [OF w, of amt "td @ w1 @ pd @ w2 @ body"]
      amount_text_first [OF a] amount_text_chars [OF a] by simp
  with g4 show "group m ''amount'' = last (split line)" by simp
next
  show "re_match ROW_RE ''Jan 5 Jan 7 TIM HORTONS OTTAWA ON Retail and Grocery 12.34'' =
           Some \<lparr>m_start = 0, m_end = 58,
                  m_groups = [(''tdate'', ''Jan 5''), (''pdate'', ''Jan 7''),
                              (''body'', ''TIM HORTONS OTTAWA ON Retail and Grocery''),
                              (''amount'', ''12.34'')]\<rparr>"
    by code_simp
qed

text \<open>
  The claim as stated (the amount a comma-grouped decimal) fails for the line
  \<open>Jan 5 Jan 7 STORE 1,,2\<close>: the pattern matches, with \<open>1,,2\<close> as the amount,
  which is no comma-grouped decimal.
\<close>

theorem row_grammar_counterexample:
  "re_match ROW_RE ''Jan 5 Jan 7 STORE 1,,2'' =
     Some \<lparr>m_start = 0, m_end = 22,
            m_groups = [(''tdate'', ''Jan 5''), (''pdate'', ''Jan 7''),
                        (''body'', ''STORE''), (''amount'', ''1,,2'')]\<rparr> \<and>
   \<not> comma_grouped_decimal ''1,,2'' \<and>
   comma_grouped_decimal ''1,234.56'' \<and> comma_grouped_decimal ''-12.34'' \<and>
   comma_grouped_decimal ''830''"
  by code_simp

theorem row_grammar_witness:
  "CHR 0x0A \<notin> set ''Jan 5 Jan 7 TIM HORTONS OTTAWA ON Retail and Grocery 12.34'' \<and>
   ''Jan 5 Jan 7 TIM HORTONS OTTAWA ON Retail and Grocery 12.34'' =
     ''Jan 5'' @ '' '' @ ''Jan 7'' @ '' '' @ ''TIM HORTONS OTTAWA ON Retail and Grocery'' @
     '' '' @ ''12.34'' \<and>
   row_parts ''Jan 5'' '' '' ''Jan 7'' '' '' ''TIM HORTONS OTTAWA ON Retail and Grocery''
     '' '' ''12.34'' \<and>
   re_match ROW_RE ''Jan 5 Jan 7 TIM HORTONS OTTAWA ON Retail and Grocery 12.34'' \<noteq> None \<and>
   re_match ROW_RE ''Jan 5 Jan 7 TIM HORTONS OTTAWA ON Retail and Grocery 12.34'' =
     Some \<lparr>m_start = 0, m_end = 58,
            m_groups = [(''tdate'', ''Jan 5''), (''pdate'', ''Jan 7''),
                        (''body'', ''TIM HORTONS OTTAWA ON Retail and Grocery''),
                        (''amount'', ''12.34'')]\<rparr> \<and>
   last (split ''Jan 5 Jan 7 TIM HORTONS OTTAWA ON Retail and Grocery 12.34'') = ''12.34'' \<and>
   \<not> amount_tail (drop 3 ''TIM HORTONS OTTAWA ON Retail and Grocery'' @ '' '' @ ''12.34'')"
proof -
  let ?line = "''Jan 5 Jan 7 TIM HORTONS OTTAWA ON Retail and Grocery 12.34''"
  let ?body = "''TIM HORTONS OTTAWA ON Retail and Grocery''"
  let ?m = "\<lparr>m_start = 0, m_end = 58,
            m_groups = [(''tdate'', ''Jan 5''), (''pdate'', ''Jan 7''),
                        (''body'', ?body), (''amount'', ''12.34'')]\<rparr>"
  have h: "CHR 0x0A \<notin> set ?line" by code_simp
  have e: "?line = ''Jan 5'' @ '' '' @ ''Jan 7'' @ '' '' @ ?body @ '' '' @ ''12.34''"
    by code_simp
  have p: "row_parts ''Jan 5'' '' '' ''Jan 7'' '' '' ?body '' '' ''12.34''" by code_simp
  have m: "re_match ROW_RE ?line = Some ?m" by code_simp
  have g: "group ?m ''tdate'' = ''Jan 5'' \<and> group ?m ''pdate'' = ''Jan 7'' \<and>
           group ?m ''body'' = ?body \<and> group ?m ''amount'' = ''12.34''" by code_simp
  note t = row_grammar [OF h]
  from e p have "\<exists>td w1 pd w2 body w3 amt.
      ?line = td @ w1 @ pd @ w2 @ body @ w3 @ amt \<and> row_parts td w1 pd w2 body w3 amt"
    by blast
  with t have r1: "re_match ROW_RE ?line \<noteq> None" by blast
  from t m have r2: "(\<exists>w1 w2 w3.
       ?line = group ?m ''tdate'' @ w1 @ group ?m ''pdate'' @ w2 @ group ?m ''body'' @
              w3 @ group ?m ''amount'' \<and>
       row_parts (group ?m ''tdate'') w1 (group ?m ''pdate'') w2 (group ?m ''body'')
                 w3 (group ?m ''amount'') \<and>
       (\<forall>k. 0 < k \<and> k < length (group ?m ''body'') \<longrightarrow>
            \<not> amount_tail (drop k (group ?m ''body'') @ w3 @ group ?m ''amount''))) \<and>
      group ?m ''amount'' = last (split ?line)" by blast
  from r2 g have r3: "last (split ?line) = ''12.34''" by simp
  from r2 obtain w1 w2 w3 where
    eq: "?line = group ?m ''tdate'' @ w1 @ group ?m ''pdate'' @ w2 @ group ?m ''body'' @
              w3 @ group ?m ''amount''"
    and rp: "row_parts (group ?m ''tdate'') w1 (group ?m ''pdate'') w2 (group ?m ''body'')
                 w3 (group ?m ''amount'')"
    and lz: "\<forall>k. 0 < k \<and> k < length (group ?m ''body'') \<longrightarrow>
            \<not> amount_tail (drop k (group ?m ''body'') @ w3 @ group ?m ''amount'')"
    by blast
  from eq g have eq': "?line = ''Jan 5'' @ w1 @ ''Jan 7'' @ w2 @ ?body @ w3 @ ''12.34''"
    by simp
  from rp have b: "blank_run w1" "blank_run w2" "blank_run w3" by (simp_all add: row_parts_def)
  then have n: "1 \<le> length w1" "1 \<le> length w2" "1 \<le> length w3"
    by (simp_all add: blank_run_iff)
  from eq' have "length ?line =
      length (''Jan 5'' @ w1 @ ''Jan 7'' @ w2 @ ?body @ w3 @ ''12.34'')" by (rule arg_cong)
  then have "length w1 + length w2 + length w3 = 3" by simp
  with n have "length w1 = 1" "length w2 = 1" "length w3 = 1" by linarith+
  then obtain a b c where w: "w1 = [a]" "w2 = [b]" "w3 = [c]"
    by (metis length_0_conv length_Suc_conv One_nat_def)
  from eq' have "CHR '' '' = a \<and> CHR '' '' = b \<and> CHR '' '' = c" unfolding w by auto
  then have "[c] = '' ''" by (elim conjE) (rule arg_cong [of _ _ "\<lambda>x. [x]"], rule sym)
  with w have w3: "w3 = '' ''" by (simp only:)
  have "0 < (3::nat) \<and> 3 < length (group ?m ''body'')" using g by simp
  with lz have "\<not> amount_tail (drop 3 (group ?m ''body'') @ w3 @ group ?m ''amount'')"
    by blast
  with g w3 have r4: "\<not> amount_tail (drop 3 ?body @ '' '' @ ''12.34'')" by simp
  show ?thesis
    by (intro conjI) (rule h e p r1 m r3 r4)+
qed

end
